theory Spec2Isabelle
  imports Main
begin

section \<open>Function values and the observable trace\<close>

text \<open>
  Every value of type \<open>VoidFunc\<close> that the subscription module creates, stores or calls is
  a constructor of \<open>func\<close>. The closures of the module refer to the heap object they close
  over by its address. The code of the owning components (listener callbacks and the calls
  they make on the public interface of a subscription) is the small language made of
  \<open>Log\<close>, \<open>Throw\<close>, \<open>Seq\<close>, \<open>CallAddNestedSub\<close>, \<open>SetOnStateChange\<close> and \<open>Dispatch\<close>.
\<close>

datatype func =
    Log nat                          \<comment> \<open>an opaque callback, recorded in the trace under its label\<close>
  | Throw                            \<comment> \<open>a callback that throws\<close>
  | Seq func func                    \<comment> \<open>a callback that does one thing and then another\<close>
  | CallAddNestedSub nat func        \<comment> \<open>\<open>sub.addNestedSub(listener)\<close>, the cleanup left unused\<close>
  | SetOnStateChange nat "func option"  \<comment> \<open>\<open>sub.onStateChange = h\<close>\<close>
  | HandleChangeWrapper nat          \<comment> \<open>\<open>sub.handleChangeWrapper\<close>\<close>
  | NotifyNestedSubs nat             \<comment> \<open>\<open>sub.notifyNestedSubs\<close>\<close>
  | TrySubscribeSelf nat             \<comment> \<open>\<open>sub.trySubscribe\<close>, the public entry point\<close>
  | TryUnsubscribeSelf nat           \<comment> \<open>\<open>sub.tryUnsubscribe\<close>, the public entry point\<close>
  | Unsubscribe nat                  \<comment> \<open>the closure returned by \<open>subscribe\<close> of a collection\<close>
  | Cleanup nat                      \<comment> \<open>the closure returned by \<open>addNestedSub\<close>\<close>
  | StoreUnsubscribe nat             \<comment> \<open>the closure returned by \<open>store.subscribe\<close>\<close>
  | Dispatch nat                     \<comment> \<open>the state container moves to a new state and notifies\<close>

datatype event =
    Invoked nat                \<comment> \<open>the callback \<open>Log l\<close> ran\<close>
  | Changed nat                \<comment> \<open>\<open>handleChangeWrapper\<close> of a node was called\<close>
  | Notified nat               \<comment> \<open>\<open>notifyNestedSubs\<close> of a node was called\<close>
  | UpstreamSubscribed nat     \<comment> \<open>a node called its upstream subscribe\<close>
  | UpstreamUnsubscribed nat   \<comment> \<open>a node called its stored upstream unsubscribe\<close>

datatype error =
    Thrown       \<comment> \<open>the exception of a throwing callback\<close>
  | TypeError    \<comment> \<open>\<open>subscribe\<close> or \<open>clear\<close> called on the null collection, which has neither\<close>

section \<open>The heap\<close>

record listener =
  callback :: func
  nextL :: "nat option"
  prevL :: "nat option"

text \<open>The variables \<open>first\<close> and \<open>last\<close> of one call of \<open>createListenerCollection\<close>.\<close>

record collection =
  firstL :: "nat option"
  lastL :: "nat option"

text \<open>The closure \<open>unsubscribe\<close> of one call of \<open>subscribe\<close>: its collection, its listener
  and its variable \<open>isSubscribed\<close>.\<close>

record unsub_closure =
  u_col :: nat
  u_listener :: nat
  u_isSubscribed :: bool

text \<open>The closure returned by one call of \<open>addNestedSub\<close>: the node it belongs to, the
  \<open>cleanupListener\<close> it holds (the address of an \<open>unsubscribe\<close> closure) and its
  variable \<open>removed\<close>.\<close>

record cleanup_closure =
  owner :: nat
  cleanupListener :: nat
  removed :: bool

text \<open>The variables of one call of \<open>createSubscription\<close>. The field \<open>listeners\<close> is \<open>None\<close>
  for \<open>nullListeners\<close> and the address of a collection otherwise.\<close>

record subscription =
  parentSub :: "nat option"
  unsubscribe :: "func option"
  listeners :: "nat option"
  subscriptionsAmount :: int
  selfSubscribed :: bool
  onStateChange :: "func option"

record state =
  cells :: "nat \<Rightarrow> listener"
  ncells :: nat
  cols :: "nat \<Rightarrow> collection"
  ncols :: nat
  unsubs :: "nat \<Rightarrow> unsub_closure"
  nunsubs :: nat
  cleanups :: "nat \<Rightarrow> cleanup_closure"
  ncleanups :: nat
  subs :: "nat \<Rightarrow> subscription"
  store_listeners :: "nat \<Rightarrow> func \<times> bool"
  nstore :: nat
  store_state :: nat
  calls :: "event list"

datatype 'a result = Ok 'a state | Exn error state

definition upd_cell :: "nat \<Rightarrow> (listener \<Rightarrow> listener) \<Rightarrow> state \<Rightarrow> state" where
  "upd_cell l f s = s\<lparr>cells := (cells s)(l := f (cells s l))\<rparr>"

definition upd_col :: "nat \<Rightarrow> (collection \<Rightarrow> collection) \<Rightarrow> state \<Rightarrow> state" where
  "upd_col c f s = s\<lparr>cols := (cols s)(c := f (cols s c))\<rparr>"

definition upd_sub :: "nat \<Rightarrow> (subscription \<Rightarrow> subscription) \<Rightarrow> state \<Rightarrow> state" where
  "upd_sub i f s = s\<lparr>subs := (subs s)(i := f (subs s i))\<rparr>"

definition emit :: "event \<Rightarrow> state \<Rightarrow> state" where
  "emit e s = s\<lparr>calls := calls s @ [e]\<rparr>"

section \<open>The listener collection\<close>

definition createListenerCollection :: "state \<Rightarrow> nat \<times> state" where
  "createListenerCollection s =
     (ncols s, s\<lparr>cols := (cols s)(ncols s := \<lparr>firstL = None, lastL = None\<rparr>),
                 ncols := Suc (ncols s)\<rparr>)"

definition clear :: "nat \<Rightarrow> state \<Rightarrow> state" where
  "clear c s = upd_col c (\<lambda>x. x\<lparr>firstL := None, lastL := None\<rparr>) s"

text \<open>\<open>subscribe\<close> returns the address \<open>u\<close> of the new closure; the function value
  it stands for is \<open>Unsubscribe u\<close>.\<close>

definition subscribe :: "nat \<Rightarrow> func \<Rightarrow> state \<Rightarrow> nat \<times> state" where
  "subscribe c cb s =
     (let l = ncells s; u = nunsubs s;
          s1 = s\<lparr>unsubs := (unsubs s)(u := \<lparr>u_col = c, u_listener = l, u_isSubscribed = True\<rparr>),
                 nunsubs := Suc u\<rparr>;
          s2 = s1\<lparr>cells := (cells s1)(l := \<lparr>callback = cb, nextL = None,
                                               prevL = lastL (cols s1 c)\<rparr>),
                   ncells := Suc l\<rparr>;
          s3 = upd_col c (\<lambda>x. x\<lparr>lastL := Some l\<rparr>) s2;
          s4 = (case prevL (cells s3 l) of
                  Some p \<Rightarrow> upd_cell p (\<lambda>x. x\<lparr>nextL := Some l\<rparr>) s3
                | None \<Rightarrow> upd_col c (\<lambda>x. x\<lparr>firstL := Some l\<rparr>) s3)
      in (u, s4))"

definition unsubscribe_cl :: "nat \<Rightarrow> state \<Rightarrow> state" where
  "unsubscribe_cl u s =
     (let c = u_col (unsubs s u); l = u_listener (unsubs s u) in
      if \<not> u_isSubscribed (unsubs s u) \<or> firstL (cols s c) = None then s
      else
        let s1 = s\<lparr>unsubs := (unsubs s)(u := (unsubs s u)\<lparr>u_isSubscribed := False\<rparr>)\<rparr>;
            s2 = (case nextL (cells s1 l) of
                    Some nx \<Rightarrow> upd_cell nx (\<lambda>x. x\<lparr>prevL := prevL (cells s1 l)\<rparr>) s1
                  | None \<Rightarrow> upd_col c (\<lambda>x. x\<lparr>lastL := prevL (cells s1 l)\<rparr>) s1);
            s3 = (case prevL (cells s2 l) of
                    Some pv \<Rightarrow> upd_cell pv (\<lambda>x. x\<lparr>nextL := nextL (cells s2 l)\<rparr>) s2
                  | None \<Rightarrow> upd_col c (\<lambda>x. x\<lparr>firstL := nextL (cells s2 l)\<rparr>) s2)
        in s3)"

text \<open>The loop of \<open>get\<close>: it follows \<open>next\<close> from \<open>first\<close> and pushes every listener it
  meets. On a cyclic heap it does not return, which is the value \<open>None\<close>.\<close>

partial_function (option) get_loop :: "(nat \<Rightarrow> listener) \<Rightarrow> nat list \<Rightarrow> nat option \<Rightarrow> nat list option"
where
  "get_loop h acc p =
     (case p of None \<Rightarrow> Some acc | Some l \<Rightarrow> get_loop h (acc @ [l]) (nextL (h l)))"

definition get :: "nat \<Rightarrow> state \<Rightarrow> nat list option" where
  "get c s = get_loop (cells s) [] (firstL (cols s c))"


text \<open>Modelled from the spec: \<open>getBatch\<close> is imported from \<open>./batch\<close>, which is not among the
  sources. The spec describes the batching wrapper as a function that invokes its argument
  synchronously.\<close>

definition batch :: "(state \<Rightarrow> 'a) \<Rightarrow> state \<Rightarrow> 'a" where
  "batch fn s = fn s"

section \<open>The state container\<close>

text \<open>Modelled from the spec: the root state container is an external collaborator, used
  through \<open>subscribe(callback) -> unsubscribe\<close> (registers one listener, fired on every
  state change; the returned unsubscribe is idempotent) and \<open>getState()\<close>. A state
  snapshot is a number, and two snapshots are the same reference when the numbers are
  equal. There is one container in the model, the \<open>store\<close> every root node is created with.\<close>

definition store_subscribe :: "func \<Rightarrow> state \<Rightarrow> func \<times> state" where
  "store_subscribe cb s =
     (StoreUnsubscribe (nstore s),
      s\<lparr>store_listeners := (store_listeners s)(nstore s := (cb, True)), nstore := Suc (nstore s)\<rparr>)"

definition store_unsubscribe :: "nat \<Rightarrow> state \<Rightarrow> state" where
  "store_unsubscribe k s =
     s\<lparr>store_listeners := (store_listeners s)(k := (fst (store_listeners s k), False))\<rparr>"

definition getState :: "state \<Rightarrow> nat" where
  "getState s = store_state s"

section \<open>The subscription node\<close>

text \<open>
  The first argument of every function below is fuel: each call and each loop iteration
  uses one unit, and \<open>None\<close> means that the fuel ran out. A listener may register listeners
  or notify its own collection, so neither the dispatch loop nor the recursion through the
  callbacks is bounded by the code itself.
\<close>

function (sequential) call :: "nat \<Rightarrow> func \<Rightarrow> state \<Rightarrow> unit result option"
and notify_loop :: "nat \<Rightarrow> nat option \<Rightarrow> state \<Rightarrow> unit result option"
and dispatch_loop :: "nat \<Rightarrow> nat \<Rightarrow> state \<Rightarrow> unit result option"
and addNestedSub :: "nat \<Rightarrow> nat \<Rightarrow> func \<Rightarrow> state \<Rightarrow> nat result option"
and trySubscribe :: "nat \<Rightarrow> nat \<Rightarrow> state \<Rightarrow> unit result option"
and tryUnsubscribe :: "nat \<Rightarrow> nat \<Rightarrow> state \<Rightarrow> unit result option"
where
  "call 0 f s = None"
| "call (Suc n) (Log l) s = Some (Ok () (emit (Invoked l) s))"
| "call (Suc n) Throw s = Some (Exn Thrown s)"
| "call (Suc n) (Seq f g) s =
     (case call n f s of
        Some (Ok _ s1) \<Rightarrow> call n g s1
      | Some (Exn e s1) \<Rightarrow> Some (Exn e s1)
      | None \<Rightarrow> None)"
| "call (Suc n) (CallAddNestedSub i f) s =
     (case addNestedSub n i f s of
        Some (Ok _ s1) \<Rightarrow> Some (Ok () s1)
      | Some (Exn e s1) \<Rightarrow> Some (Exn e s1)
      | None \<Rightarrow> None)"
| "call (Suc n) (SetOnStateChange i h) s =
     Some (Ok () (upd_sub i (\<lambda>x. x\<lparr>onStateChange := h\<rparr>) s))"
| "call (Suc n) (HandleChangeWrapper i) s =
     (let s1 = emit (Changed i) s in
      case onStateChange (subs s1 i) of
        Some h \<Rightarrow> call n h s1
      | None \<Rightarrow> Some (Ok () s1))"
| "call (Suc n) (NotifyNestedSubs i) s =
     (let s1 = emit (Notified i) s in
      case listeners (subs s1 i) of
        None \<Rightarrow> Some (Ok () s1)
      | Some c \<Rightarrow> batch (\<lambda>s2. notify_loop n (firstL (cols s2 c)) s2) s1)"
| "call (Suc n) (TrySubscribeSelf i) s =
     (if \<not> selfSubscribed (subs s i)
      then trySubscribe n i (upd_sub i (\<lambda>x. x\<lparr>selfSubscribed := True\<rparr>) s)
      else Some (Ok () s))"
| "call (Suc n) (TryUnsubscribeSelf i) s =
     (if selfSubscribed (subs s i)
      then tryUnsubscribe n i (upd_sub i (\<lambda>x. x\<lparr>selfSubscribed := False\<rparr>) s)
      else Some (Ok () s))"
| "call (Suc n) (Unsubscribe u) s = Some (Ok () (unsubscribe_cl u s))"
| "call (Suc n) (Cleanup k) s =
     (if \<not> removed (cleanups s k)
      then
        let s1 = s\<lparr>cleanups := (cleanups s)(k := (cleanups s k)\<lparr>removed := True\<rparr>)\<rparr>;
            s2 = unsubscribe_cl (cleanupListener (cleanups s1 k)) s1
        in tryUnsubscribe n (owner (cleanups s2 k)) s2
      else Some (Ok () s))"
| "call (Suc n) (StoreUnsubscribe k) s = Some (Ok () (store_unsubscribe k s))"
| "call (Suc n) (Dispatch v) s = dispatch_loop n 0 (s\<lparr>store_state := v\<rparr>)"

| "notify_loop 0 p s = None"
| "notify_loop (Suc n) None s = Some (Ok () s)"
| "notify_loop (Suc n) (Some l) s =
     (case call n (callback (cells s l)) s of
        Some (Ok _ s1) \<Rightarrow> notify_loop n (nextL (cells s1 l)) s1
      | Some (Exn e s1) \<Rightarrow> Some (Exn e s1)
      | None \<Rightarrow> None)"

| "dispatch_loop 0 k s = None"
| "dispatch_loop (Suc n) k s =
     (if k < nstore s then
        (if snd (store_listeners s k) then
           (case call n (fst (store_listeners s k)) s of
              Some (Ok _ s1) \<Rightarrow> dispatch_loop n (Suc k) s1
            | Some (Exn e s1) \<Rightarrow> Some (Exn e s1)
            | None \<Rightarrow> None)
         else dispatch_loop n (Suc k) s)
      else Some (Ok () s))"

| "addNestedSub 0 i listener s = None"
| "addNestedSub (Suc n) i listener s =
     (case trySubscribe n i s of
        Some (Ok _ s1) \<Rightarrow>
          (case listeners (subs s1 i) of
             None \<Rightarrow> Some (Exn TypeError s1)
           | Some c \<Rightarrow>
               let (cl, s2) = subscribe c listener s1; k = ncleanups s2 in
               Some (Ok k (s2\<lparr>cleanups := (cleanups s2)(k := \<lparr>owner = i, cleanupListener = cl,
                                                               removed = False\<rparr>),
                              ncleanups := Suc k\<rparr>)))
      | Some (Exn e s1) \<Rightarrow> Some (Exn e s1)
      | None \<Rightarrow> None)"

| "trySubscribe 0 i s = None"
| "trySubscribe (Suc n) i s =
     (let s1 = upd_sub i (\<lambda>x. x\<lparr>subscriptionsAmount := subscriptionsAmount x + 1\<rparr>) s in
      if unsubscribe (subs s1 i) = None then
        (case (case parentSub (subs s1 i) of
                 Some p \<Rightarrow>
                   (case addNestedSub n p (HandleChangeWrapper i) (emit (UpstreamSubscribed i) s1) of
                      Some (Ok k s2) \<Rightarrow> Some (Ok (Cleanup k) s2)
                    | Some (Exn e s2) \<Rightarrow> Some (Exn e s2)
                    | None \<Rightarrow> None)
               | None \<Rightarrow>
                   (let (h, s2) = store_subscribe (HandleChangeWrapper i)
                                    (emit (UpstreamSubscribed i) s1)
                    in Some (Ok h s2))) of
           Some (Ok h s2) \<Rightarrow>
             let s3 = upd_sub i (\<lambda>x. x\<lparr>unsubscribe := Some h\<rparr>) s2;
                 (c, s4) = createListenerCollection s3
             in Some (Ok () (upd_sub i (\<lambda>x. x\<lparr>listeners := Some c\<rparr>) s4))
         | Some (Exn e s2) \<Rightarrow> Some (Exn e s2)
         | None \<Rightarrow> None)
      else Some (Ok () s1))"

| "tryUnsubscribe 0 i s = None"
| "tryUnsubscribe (Suc n) i s =
     (let s1 = upd_sub i (\<lambda>x. x\<lparr>subscriptionsAmount := subscriptionsAmount x - 1\<rparr>) s in
      case unsubscribe (subs s1 i) of
        Some h \<Rightarrow>
          if subscriptionsAmount (subs s1 i) = 0 then
            (case call n h (emit (UpstreamUnsubscribed i) s1) of
               Some (Ok _ s2) \<Rightarrow>
                 let s3 = upd_sub i (\<lambda>x. x\<lparr>unsubscribe := None\<rparr>) s2 in
                 (case listeners (subs s3 i) of
                    None \<Rightarrow> Some (Exn TypeError s3)
                  | Some c \<Rightarrow> Some (Ok () (upd_sub i (\<lambda>x. x\<lparr>listeners := None\<rparr>) (clear c s3))))
             | Some (Exn e s2) \<Rightarrow> Some (Exn e s2)
             | None \<Rightarrow> None)
          else Some (Ok () s1)
      | None \<Rightarrow> Some (Ok () s1))"
  by pat_completeness auto

termination
  by (relation "measure (\<lambda>x. case x of
        Inl (Inl (n, _)) \<Rightarrow> n | Inl (Inr (Inl (n, _))) \<Rightarrow> n | Inl (Inr (Inr (n, _))) \<Rightarrow> n
      | Inr (Inl (n, _)) \<Rightarrow> n | Inr (Inr (Inl (n, _))) \<Rightarrow> n | Inr (Inr (Inr (n, _))) \<Rightarrow> n)")
     auto

text \<open>\<open>notify()\<close> of the collection \<open>c\<close>, as \<open>notifyNestedSubs\<close> above runs it: the loop
  starts from what \<open>first\<close> is when the batching wrapper calls it.\<close>

definition notify :: "nat \<Rightarrow> nat \<Rightarrow> state \<Rightarrow> unit result option" where
  "notify n c s = batch (\<lambda>s2. notify_loop n (firstL (cols s2 c)) s2) s"

text \<open>\<open>isSubscribed()\<close> of a node.\<close>

definition isSubscribed :: "nat \<Rightarrow> state \<Rightarrow> bool" where
  "isSubscribed i s = selfSubscribed (subs s i)"

text \<open>The variables of a node as \<open>createSubscription(store, parentSub)\<close> leaves them.\<close>

definition createSubscription :: "nat option \<Rightarrow> subscription" where
  "createSubscription parent =
     \<lparr>parentSub = parent, unsubscribe = None, listeners = None, subscriptionsAmount = 0,
      selfSubscribed = False, onStateChange = None\<rparr>"

text \<open>
  The initial world: node \<open>i\<close> has been created with parent \<open>par i\<close>, nothing else is
  allocated, and the closures at the addresses not yet allocated are inert. A node is
  created after its parent, so the numbering can follow the creation order: \<open>wf_parents\<close>.
\<close>

definition init :: "(nat \<Rightarrow> nat option) \<Rightarrow> state" where
  "init par =
     \<lparr>cells = (\<lambda>_. \<lparr>callback = Log 0, nextL = None, prevL = None\<rparr>), ncells = 0,
      cols = (\<lambda>_. \<lparr>firstL = None, lastL = None\<rparr>), ncols = 0,
      unsubs = (\<lambda>_. \<lparr>u_col = 0, u_listener = 0, u_isSubscribed = False\<rparr>), nunsubs = 0,
      cleanups = (\<lambda>_. \<lparr>owner = 0, cleanupListener = 0, removed = True\<rparr>), ncleanups = 0,
      subs = (\<lambda>i. createSubscription (par i)),
      store_listeners = (\<lambda>_. (Log 0, False)), nstore = 0, store_state = 0,
      calls = []\<rparr>"

definition wf_parents :: "(nat \<Rightarrow> nat option) \<Rightarrow> bool" where
  "wf_parents par = (\<forall>i p. par i = Some p \<longrightarrow> p < i)"

text \<open>The owner of a subscription making several calls, one after the other; an exception
  ends the sequence.\<close>

fun call_all :: "nat \<Rightarrow> func list \<Rightarrow> state \<Rightarrow> unit result option" where
  "call_all n [] s = Some (Ok () s)"
| "call_all n (f # fs) s =
     (case call n f s of
        Some (Ok _ s1) \<Rightarrow> call_all n fs s1
      | Some (Exn e s1) \<Rightarrow> Some (Exn e s1)
      | None \<Rightarrow> None)"

section \<open>The attach effect of Provider\<close>

definition provider_effect :: "nat \<Rightarrow> nat \<Rightarrow> nat \<Rightarrow> state \<Rightarrow> unit result option" where
  "provider_effect n previousState sub s =
     (case call n (SetOnStateChange sub (Some (NotifyNestedSubs sub))) s of
        Some (Ok _ s1) \<Rightarrow>
          (case call n (TrySubscribeSelf sub) s1 of
             Some (Ok _ s2) \<Rightarrow>
               if previousState \<noteq> getState s2 then call n (NotifyNestedSubs sub) s2
               else Some (Ok () s2)
           | Some (Exn e s2) \<Rightarrow> Some (Exn e s2)
           | None \<Rightarrow> None)
      | Some (Exn e s1) \<Rightarrow> Some (Exn e s1)
      | None \<Rightarrow> None)"

section \<open>Abstraction of a listener collection\<close>

text \<open>
  \<open>seg h pv p xs q lst\<close>: in the heap \<open>h\<close> the listeners \<open>xs\<close> are linked in this order;
  \<open>p\<close> points to the first of them, whose \<open>prev\<close> is \<open>pv\<close>; the \<open>next\<close> of the last of
  them is \<open>q\<close>; \<open>lst\<close> points to the last of them (it is \<open>pv\<close> when there is none).
\<close>

fun seg :: "(nat \<Rightarrow> listener) \<Rightarrow> nat option \<Rightarrow> nat option \<Rightarrow> nat list \<Rightarrow> nat option \<Rightarrow> nat option \<Rightarrow> bool" where
  "seg h pv p [] q lst = (p = q \<and> lst = pv)"
| "seg h pv p (x # xs) q lst = (p = Some x \<and> prevL (h x) = pv \<and> seg h (Some x) (nextL (h x)) xs q lst)"

text \<open>The heap after \<open>subscribe\<close> has linked the new listener \<open>l\<close> behind \<open>lst\<close>, and the
  heap after \<open>unsubscribe\<close> has unlinked the listener \<open>l\<close>.\<close>

definition link_tail :: "(nat \<Rightarrow> listener) \<Rightarrow> func \<Rightarrow> nat \<Rightarrow> nat option \<Rightarrow> nat \<Rightarrow> listener" where
  "link_tail h cb l lst =
     (let h1 = h(l := \<lparr>callback = cb, nextL = None, prevL = lst\<rparr>) in
      case lst of None \<Rightarrow> h1 | Some p \<Rightarrow> h1(p := (h1 p)\<lparr>nextL := Some l\<rparr>))"

definition unlink :: "(nat \<Rightarrow> listener) \<Rightarrow> nat \<Rightarrow> nat \<Rightarrow> listener" where
  "unlink h l =
     (let h2 = (case nextL (h l) of Some nx \<Rightarrow> h(nx := (h nx)\<lparr>prevL := prevL (h l)\<rparr>) | None \<Rightarrow> h) in
      case prevL (h2 l) of Some pv \<Rightarrow> h2(pv := (h2 pv)\<lparr>nextL := nextL (h2 l)\<rparr>) | None \<Rightarrow> h2)"

text \<open>
  \<open>reg s c us\<close>: the collection \<open>c\<close> holds the listeners of the closures \<open>us\<close>, in this
  order, and \<open>us\<close> are all the closures of the heap whose \<open>isSubscribed\<close> is still true.
\<close>

definition lis :: "state \<Rightarrow> nat \<Rightarrow> nat" where
  "lis s u = u_listener (unsubs s u)"

definition reg :: "state \<Rightarrow> nat \<Rightarrow> nat list \<Rightarrow> bool" where
  "reg s c us =
     (seg (cells s) None (firstL (cols s c)) (map (lis s) us) None (lastL (cols s c))
      \<and> (\<forall>u. (u \<in> set us) = u_isSubscribed (unsubs s u))
      \<and> (\<forall>u\<in>set us. u_col (unsubs s u) = c \<and> u < nunsubs s \<and> lis s u < ncells s))"

text \<open>
  A sequence of calls on one collection: \<open>Sub cb\<close> is \<open>subscribe(cb)\<close>, and \<open>Unsub u\<close>
  calls the unsubscribe function that the call of \<open>subscribe\<close> number \<open>u\<close> (from 0) has
  returned. In \<open>fresh_registry\<close> that function is the closure at address \<open>u\<close> and its
  listener is at address \<open>u\<close> too. \<open>wf_ops m ops\<close>: after \<open>m\<close> calls of \<open>subscribe\<close>,
  the sequence \<open>ops\<close> only calls unsubscribe functions that have been returned.
\<close>

datatype reg_op = Sub func | Unsub nat

fun reg_run :: "nat \<Rightarrow> reg_op list \<Rightarrow> state \<Rightarrow> state" where
  "reg_run c [] s = s"
| "reg_run c (Sub cb # ops) s = reg_run c ops (snd (subscribe c cb s))"
| "reg_run c (Unsub u # ops) s = reg_run c ops (unsubscribe_cl u s)"

fun sub_cbs :: "reg_op list \<Rightarrow> func list" where
  "sub_cbs [] = []"
| "sub_cbs (Sub cb # ops) = cb # sub_cbs ops"
| "sub_cbs (Unsub u # ops) = sub_cbs ops"

fun wf_ops :: "nat \<Rightarrow> reg_op list \<Rightarrow> bool" where
  "wf_ops m [] = True"
| "wf_ops m (Sub cb # ops) = wf_ops (Suc m) ops"
| "wf_ops m (Unsub u # ops) = (u < m \<and> wf_ops m ops)"

definition fresh_registry :: state where
  "fresh_registry = snd (createListenerCollection (init (\<lambda>_. None)))"

section \<open>Invariants of the subscription nodes\<close>

definition st :: "'a result \<Rightarrow> state" where
  "st r = (case r of Ok _ s \<Rightarrow> s | Exn _ s \<Rightarrow> s)"

fun count_live :: "(nat \<Rightarrow> cleanup_closure) \<Rightarrow> nat \<Rightarrow> nat \<Rightarrow> nat" where
  "count_live cl i 0 = 0"
| "count_live cl i (Suc k) =
     count_live cl i k + (if owner (cl k) = i \<and> \<not> removed (cl k) then 1 else 0)"

definition reasons :: "state \<Rightarrow> nat \<Rightarrow> int" where
  "reasons s i = int (count_live (cleanups s) i (ncleanups s))
                 + (if selfSubscribed (subs s i) then 1 else 0)"

definition debt :: "state \<Rightarrow> nat \<Rightarrow> int" where
  "debt s i = subscriptionsAmount (subs s i) - reasons s i"

definition parent_ok :: "state \<Rightarrow> bool" where
  "parent_ok s = (\<forall>j p. parentSub (subs s j) = Some p \<longrightarrow> p < j)"

definition handle_ok :: "state \<Rightarrow> nat option \<Rightarrow> func \<Rightarrow> bool" where
  "handle_ok s par h =
     (case par of
        Some p \<Rightarrow> (case h of Cleanup k \<Rightarrow> k < ncleanups s \<and> owner (cleanups s k) = p | _ \<Rightarrow> False)
      | None \<Rightarrow> (case h of StoreUnsubscribe m \<Rightarrow> True | _ \<Rightarrow> False))"

definition handles_ok :: "state \<Rightarrow> bool" where
  "handles_ok s = (\<forall>j h. unsubscribe (subs s j) = Some h \<longrightarrow> handle_ok s (parentSub (subs s j)) h)"

definition glob :: "state \<Rightarrow> bool" where
  "glob s = (\<forall>k\<ge>ncleanups s. removed (cleanups s k))"

definition W :: "state \<Rightarrow> bool" where
  "W s = (parent_ok s \<and> handles_ok s \<and> glob s)"

definition mono :: "state \<Rightarrow> state \<Rightarrow> bool" where
  "mono s s' = (ncleanups s \<le> ncleanups s'
     \<and> (\<forall>k<ncleanups s. owner (cleanups s' k) = owner (cleanups s k))
     \<and> (\<forall>k<ncleanups s. removed (cleanups s k) \<longrightarrow> removed (cleanups s' k))
     \<and> (\<forall>j. parentSub (subs s' j) = parentSub (subs s j)))"

definition frame :: "nat \<Rightarrow> state \<Rightarrow> state \<Rightarrow> bool" where
  "frame i s s' = (\<forall>j>i. subs s' j = subs s j)"

definition up_events :: "nat \<Rightarrow> event list \<Rightarrow> bool" where
  "up_events i es = (\<forall>e\<in>set es. \<exists>j\<le>i. e = UpstreamSubscribed j \<or> e = UpstreamUnsubscribed j)"

definition gpost :: "state \<Rightarrow> 'a result \<Rightarrow> bool" where
  "gpost s r = (W (st r) \<and> mono s (st r))"

definition connect :: "nat \<Rightarrow> func \<Rightarrow> state \<Rightarrow> state" where
  "connect i h s =
     upd_sub i (\<lambda>x. x\<lparr>listeners := Some (ncols s)\<rparr>)
       (snd (createListenerCollection (upd_sub i (\<lambda>x. x\<lparr>unsubscribe := Some h\<rparr>) s)))"

definition disconnect :: "nat \<Rightarrow> nat \<Rightarrow> state \<Rightarrow> state" where
  "disconnect i c s =
     upd_sub i (\<lambda>x. x\<lparr>listeners := None\<rparr>) (clear c (upd_sub i (\<lambda>x. x\<lparr>unsubscribe := None\<rparr>) s))"

definition register :: "nat \<Rightarrow> nat \<Rightarrow> func \<Rightarrow> state \<Rightarrow> state" where
  "register i c f s =
     (let s2 = snd (subscribe c f s) in
      s2\<lparr>cleanups := (cleanups s2)(ncleanups s2 :=
             \<lparr>owner = i, cleanupListener = fst (subscribe c f s), removed = False\<rparr>),
         ncleanups := Suc (ncleanups s2)\<rparr>)"

definition flip :: "nat \<Rightarrow> state \<Rightarrow> state" where
  "flip k s = s\<lparr>cleanups := (cleanups s)(k := (cleanups s k)\<lparr>removed := True\<rparr>)\<rparr>"

definition rel0 :: "nat \<Rightarrow> state \<Rightarrow> state \<Rightarrow> bool" where
  "rel0 i s s' = (mono s s' \<and> frame i s s' \<and> store_state s' = store_state s
                  \<and> (\<exists>es. calls s' = calls s @ es \<and> up_events i es))"

definition hp :: "nat \<Rightarrow> int \<Rightarrow> state \<Rightarrow> 'a result \<Rightarrow> bool" where
  "hp i d s r = (W (st r) \<and> rel0 i s (st r)
                 \<and> (\<forall>x s'. r = Ok x s' \<longrightarrow> debt s' = (debt s)(i := debt s i + d)))"

definition inc :: "nat \<Rightarrow> state \<Rightarrow> state" where
  "inc i s = upd_sub i (\<lambda>x. x\<lparr>subscriptionsAmount := subscriptionsAmount x + 1\<rparr>) s"

definition dec :: "nat \<Rightarrow> state \<Rightarrow> state" where
  "dec i s = upd_sub i (\<lambda>x. x\<lparr>subscriptionsAmount := subscriptionsAmount x - 1\<rparr>) s"

definition drop_handle :: "nat \<Rightarrow> state \<Rightarrow> state" where
  "drop_handle i s = upd_sub i (\<lambda>x. x\<lparr>unsubscribe := None\<rparr>) s"

definition L1 :: "nat \<Rightarrow> bool" where
  "L1 n = (\<forall>s. W s \<longrightarrow>
     (\<forall>f r. call n f s = Some r \<longrightarrow>
        gpost s r \<and> (\<forall>k. f = Cleanup k \<longrightarrow> hp (owner (cleanups s k)) 0 s r))
   \<and> (\<forall>p r. notify_loop n p s = Some r \<longrightarrow> gpost s r)
   \<and> (\<forall>k r. dispatch_loop n k s = Some r \<longrightarrow> gpost s r)
   \<and> (\<forall>i f r. addNestedSub n i f s = Some r \<longrightarrow>
        hp i 0 s r \<and> (\<forall>k s'. r = Ok k s' \<longrightarrow> k < ncleanups s' \<and> owner (cleanups s' k) = i))
   \<and> (\<forall>i r. trySubscribe n i s = Some r \<longrightarrow> hp i 1 s r)
   \<and> (\<forall>i r. tryUnsubscribe n i s = Some r \<longrightarrow> hp i (- 1) s r))"

definition nlink :: "subscription \<Rightarrow> bool" where
  "nlink x =
     ((unsubscribe x = None) = (listeners x = None)
      \<and> (unsubscribe x \<noteq> None) = (1 \<le> subscriptionsAmount x)
      \<and> 0 \<le> subscriptionsAmount x)"

definition link_ok :: "state \<Rightarrow> nat \<Rightarrow> bool" where
  "link_ok s j = nlink (subs s j)"

definition below_ok :: "state \<Rightarrow> nat \<Rightarrow> bool" where
  "below_ok s i = (\<forall>j<i. link_ok s j \<and> debt s j = 0)"

definition lpost :: "nat \<Rightarrow> 'a result \<Rightarrow> bool" where
  "lpost i r = (\<exists>x s'. r = Ok x s' \<and> (\<forall>j\<le>i. link_ok s' j))"

definition L3 :: "nat \<Rightarrow> bool" where
  "L3 n = (\<forall>s. W s \<longrightarrow>
     (\<forall>i r. below_ok s i \<and> link_ok s i \<and> trySubscribe n i s = Some r \<longrightarrow>
        lpost i r \<and> unsubscribe (subs (st r) i) \<noteq> None)
   \<and> (\<forall>i f r. below_ok s i \<and> link_ok s i \<and> addNestedSub n i f s = Some r \<longrightarrow> lpost i r)
   \<and> (\<forall>i r. below_ok s i \<and> link_ok s i \<and> 1 \<le> subscriptionsAmount (subs s i)
          \<and> tryUnsubscribe n i s = Some r \<longrightarrow> lpost i r)
   \<and> (\<forall>k r. below_ok s (Suc (owner (cleanups s k))) \<and> call n (Cleanup k) s = Some r \<longrightarrow>
          lpost (owner (cleanups s k)) r))"

definition T3 :: "nat \<Rightarrow> bool" where
  "T3 i = (\<forall>n s. W s \<longrightarrow>
     (\<forall>f. below_ok s i \<and> link_ok s i \<and> 2 * i + 2 \<le> n \<longrightarrow> addNestedSub n i f s \<noteq> None)
   \<and> (\<forall>k. owner (cleanups s k) = i \<and> below_ok s (Suc i) \<and> 2 * i + 3 \<le> n \<longrightarrow>
          call n (Cleanup k) s \<noteq> None))"

definition sub_inv :: "state \<Rightarrow> bool" where
  "sub_inv s = (W s \<and> (\<forall>j. link_ok s j \<and> debt s j = 0))"

definition no_type_error :: "'a result \<Rightarrow> bool" where
  "no_type_error r = (case r of Ok _ _ \<Rightarrow> True | Exn e _ \<Rightarrow> e \<noteq> TypeError)"

definition L4 :: "nat \<Rightarrow> bool" where
  "L4 n = (\<forall>s. sub_inv s \<longrightarrow>
     (\<forall>f r. call n f s = Some r \<longrightarrow> sub_inv (st r) \<and> no_type_error r)
   \<and> (\<forall>p r. notify_loop n p s = Some r \<longrightarrow> sub_inv (st r) \<and> no_type_error r)
   \<and> (\<forall>k r. dispatch_loop n k s = Some r \<longrightarrow> sub_inv (st r) \<and> no_type_error r))"

definition upstream_calls :: "nat \<Rightarrow> event list \<Rightarrow> event list" where
  "upstream_calls i es = filter (\<lambda>e. e = UpstreamSubscribed i \<or> e = UpstreamUnsubscribed i) es"

definition ready :: "state \<Rightarrow> nat \<Rightarrow> bool" where
  "ready s i = (W s \<and> below_ok s i \<and> link_ok s i)"

definition chain :: "nat \<Rightarrow> nat option" where
  "chain i = (case i of 0 \<Rightarrow> None | Suc j \<Rightarrow> Some j)"

definition busy_program :: func where
  "busy_program =
     Seq (SetOnStateChange 0 (Some (NotifyNestedSubs 0)))
    (Seq (SetOnStateChange 1 (Some (NotifyNestedSubs 1)))
    (Seq (CallAddNestedSub 1 (Seq (Log 7) (Cleanup 1)))
    (Seq (TrySubscribeSelf 0)
    (Seq (Dispatch 1)
    (Seq (TryUnsubscribeSelf 0) (Dispatch 2))))))"

text \<open>A caller that holds the collection of a node that has detached: the root node \<open>0\<close>
  attaches, the caller subscribes a listener on \<open>getListeners()\<close>, the node detaches.\<close>

definition held_registry_detached :: state where
  "held_registry_detached =
     st (the (call 3 (TryUnsubscribeSelf 0)
       (snd (subscribe 0 (Log 1) (st (the (call 3 (TrySubscribeSelf 0) (init (\<lambda>_. None)))))))))"

section \<open>Describing a notification pass\<close>

text \<open>
  \<open>pass_after n k p s = Some (q, s')\<close>: in the pass that \<open>notify\<close> starts with fuel \<open>n\<close> at the
  listener \<open>p\<close> in the state \<open>s\<close>, the callbacks of the first \<open>k\<close> listeners on the way have
  been invoked and each of them has returned; \<open>q\<close> is the listener that the pass has come
  to (\<open>None\<close> at the end of the list) and \<open>s'\<close> the state there. It is \<open>None\<close> when fewer than
  \<open>k\<close> callbacks returned. The callback of \<open>q\<close> is invoked next, with the fuel \<open>n - Suc k\<close>.
\<close>

fun pass_after :: "nat \<Rightarrow> nat \<Rightarrow> nat option \<Rightarrow> state \<Rightarrow> (nat option \<times> state) option" where
  "pass_after n 0 p s = Some (p, s)"
| "pass_after 0 (Suc k) p s = None"
| "pass_after (Suc n) (Suc k) None s = None"
| "pass_after (Suc n) (Suc k) (Some l) s =
     (case call n (callback (cells s l)) s of
        Some (Ok _ s1) \<Rightarrow> pass_after n k (nextL (cells s1 l)) s1
      | _ \<Rightarrow> None)"

text \<open>
  Callbacks that only log: \<open>said f\<close> is what \<open>f\<close> appends to the trace, and \<open>depth f\<close> the fuel
  that a call of \<open>f\<close> needs.
\<close>

fun quiet :: "func \<Rightarrow> bool" where
  "quiet (Log l) = True"
| "quiet (Seq f g) = (quiet f \<and> quiet g)"
| "quiet _ = False"

fun said :: "func \<Rightarrow> event list" where
  "said (Log l) = [Invoked l]"
| "said (Seq f g) = said f @ said g"
| "said _ = []"

fun depth :: "func \<Rightarrow> nat" where
  "depth (Seq f g) = Suc (max (depth f) (depth g))"
| "depth _ = 1"


text \<open>
  A tree with a listener that throws: node \<open>1\<close> is a child of the root \<open>0\<close> and holds the
  listener \<open>Log 5\<close>, so the collection of the root holds the handler of node \<open>1\<close>; then a
  listener that throws and the listener \<open>Log 6\<close> are registered at the root.
\<close>

definition throwing_tree_program :: func where
  "throwing_tree_program =
     Seq (SetOnStateChange 1 (Some (NotifyNestedSubs 1)))
    (Seq (CallAddNestedSub 1 (Log 5))
    (Seq (CallAddNestedSub 0 Throw) (CallAddNestedSub 0 (Log 6))))"


section \<open>The states in which a node calls \<open>trySubscribe\<close> and \<open>tryUnsubscribe\<close>\<close>

text \<open>
  The states in which the functions of a program are invoked, and in which their runs end:
  the initial world; the state in which any invocation from such a state ends; the state
  after \<open>handleChangeWrapper\<close> or \<open>notifyNestedSubs\<close> has marked its event in the trace,
  where it invokes \<open>onStateChange\<close> and the first listener; the state after the store has
  taken a new value, where it invokes its first listener.
\<close>

inductive reachable :: "(nat \<Rightarrow> nat option) \<Rightarrow> state \<Rightarrow> bool" for par where
  initial: "reachable par (init par)"
| returned: "reachable par s \<Longrightarrow> call n f s = Some r \<Longrightarrow> reachable par (st r)"
| marked: "reachable par s \<Longrightarrow> reachable par (emit e s)"
| assigned: "reachable par s \<Longrightarrow> reachable par (s\<lparr>store_state := v\<rparr>)"



section \<open>The trace only grows\<close>

text \<open>\<open>grows s s'\<close>: the trace of \<open>s'\<close> is the trace of \<open>s\<close> with further events after it.\<close>

definition grows :: "state \<Rightarrow> state \<Rightarrow> bool" where
  "grows s s' = (\<exists>es. calls s' = calls s @ es)"

definition G :: "nat \<Rightarrow> bool" where
  "G n = (\<forall>s.
     (\<forall>f r. call n f s = Some r \<longrightarrow> grows s (st r))
   \<and> (\<forall>p r. notify_loop n p s = Some r \<longrightarrow> grows s (st r))
   \<and> (\<forall>k r. dispatch_loop n k s = Some r \<longrightarrow> grows s (st r))
   \<and> (\<forall>i f r. addNestedSub n i f s = Some r \<longrightarrow> grows s (st r))
   \<and> (\<forall>i r. trySubscribe n i s = Some r \<longrightarrow> grows s (st r))
   \<and> (\<forall>i r. tryUnsubscribe n i s = Some r \<longrightarrow> grows s (st r)))"

section \<open>Lemmas on the listener collection\<close>

lemma seg_append:
  "seg h pv p (xs @ ys) q lst = (\<exists>m l. seg h pv p xs m l \<and> seg h l m ys q lst)"
  by (induction xs arbitrary: pv p) auto

lemma seg_upd_notin:
  "a \<notin> set xs \<Longrightarrow> seg (h(a := v)) pv p xs q lst = seg h pv p xs q lst"
  by (induction xs arbitrary: pv p) auto

lemma seg_last: "seg h pv p xs q lst \<Longrightarrow> lst = (if xs = [] then pv else Some (last xs))"
  by (induction xs arbitrary: pv p) (auto split: if_splits)

lemma seg_snoc:
  "seg h pv p (xs @ [x]) q lst = (\<exists>m l. seg h pv p xs m l \<and> m = Some x \<and> prevL (h x) = l \<and> nextL (h x) = q \<and> lst = Some x)"
  by (auto simp: seg_append)

lemma seg_set_next_last:
  "seg h pv p (xs @ [x]) q lst \<Longrightarrow> x \<notin> set xs \<Longrightarrow>
   seg (h(x := (h x)\<lparr>nextL := q'\<rparr>)) pv p (xs @ [x]) q' lst"
  by (auto simp: seg_append seg_upd_notin)

lemma seg_set_prev_hd:
  "seg h pv p (x # xs) q lst \<Longrightarrow> x \<notin> set xs \<Longrightarrow>
   seg (h(x := (h x)\<lparr>prevL := pv'\<rparr>)) pv' p (x # xs) q lst"
  by (auto simp: seg_upd_notin)

lemma get_loop_seg:
  "seg h pv p xs None lst \<Longrightarrow> get_loop h acc p = Some (acc @ xs)"
proof (induction xs arbitrary: pv p acc)
  case Nil
  then show ?case by (subst get_loop.simps) simp
next
  case (Cons x xs)
  then show ?case by (subst get_loop.simps) auto
qed

lemma seg_distinct_aux:
  "seg h pv p xs None lst \<Longrightarrow> seg h pv' p ys None lst' \<Longrightarrow> xs = ys"
proof (induction xs arbitrary: pv pv' p ys)
  case Nil
  then show ?case by (cases ys) auto
next
  case (Cons x xs)
  then show ?case by (cases ys) auto
qed

lemma seg_distinct: "seg h pv p xs None lst \<Longrightarrow> distinct xs"
proof (induction xs arbitrary: pv p)
  case Nil
  then show ?case by simp
next
  case (Cons x xs)
  have "x \<notin> set xs"
  proof
    assume "x \<in> set xs"
    then obtain as bs where xs: "xs = as @ x # bs" by (auto simp: in_set_conv_decomp)
    from Cons.prems have s1: "seg h (Some x) (nextL (h x)) (as @ x # bs) None lst" by (simp add: xs)
    then obtain l where s2: "seg h l (Some x) (x # bs) None lst" by (auto simp: seg_append)
    then have s3: "seg h (Some x) (nextL (h x)) bs None lst" by simp
    from seg_distinct_aux[OF s1 s3] show False by simp
  qed
  with Cons show ?case by auto
qed

lemma seg_link_tail:
  assumes "seg h None f xs None lst" and "l \<notin> set xs"
  shows "seg (link_tail h cb l lst) None (if xs = [] then Some l else f) (xs @ [l]) None (Some l)"
proof (cases xs rule: rev_cases)
  case Nil
  with assms show ?thesis by (simp add: link_tail_def)
next
  case (snoc ys y)
  with assms have lst: "lst = Some y" and yl: "y \<noteq> l" and lys: "l \<notin> set ys"
    using seg_last[OF assms(1)] by auto
  from assms(1) snoc obtain pl where a: "seg h None f ys (Some y) pl"
    and b: "prevL (h y) = pl" "nextL (h y) = None"
    by (auto simp: seg_append)
  have "distinct (ys @ [y])" using seg_distinct[OF assms(1)] snoc by simp
  with a b lst yl lys snoc show ?thesis
    by (auto simp: link_tail_def seg_append seg_upd_notin)
qed

lemma unlink_seg:
  assumes "seg h None f (ys @ x # zs) None lst"
  shows "seg (unlink h x) None (if ys = [] then nextL (h x) else f) (ys @ zs) None
           (if zs = [] then prevL (h x) else lst)
         \<and> (prevL (h x) = None) = (ys = []) \<and> (nextL (h x) = None) = (zs = [])
         \<and> unlink h x x = h x
         \<and> (\<forall>a. callback (unlink h x a) = callback (h a))"
proof -
  have d: "distinct (ys @ x # zs)" using seg_distinct[OF assms] .
  from assms obtain l where a: "seg h None f ys (Some x) l" and pl: "prevL (h x) = l"
    and b: "seg h (Some x) (nextL (h x)) zs None lst"
    by (auto simp: seg_append)
  have l: "l = (if ys = [] then None else Some (last ys))" using seg_last[OF a] .
  have n: "(nextL (h x) = None) = (zs = [])" using b by (cases zs) auto
  have cb: "\<forall>a. callback (unlink h x a) = callback (h a)"
    by (auto simp: unlink_def Let_def split: option.splits)
  have own: "unlink h x x = h x"
  proof -
    have "nextL (h x) \<noteq> Some x" using b d by (cases zs) auto
    moreover have "prevL (h x) \<noteq> Some x" using pl l d by (auto split: if_splits)
    ultimately show ?thesis by (auto simp: unlink_def Let_def split: option.splits)
  qed
  have main: "seg (unlink h x) None (if ys = [] then nextL (h x) else f) (ys @ zs) None
           (if zs = [] then prevL (h x) else lst)"
  proof (cases zs)
    case Nil
    note zs = this
    show ?thesis
    proof (cases ys rule: rev_cases)
      case Nil
      with zs a b pl show ?thesis by (auto simp: unlink_def)
    next
      case (snoc ys' y)
      with zs a b pl l d show ?thesis
        by (auto simp: unlink_def seg_append seg_upd_notin)
    qed
  next
    case (Cons z zs')
    note zs = this
    with b have nx: "nextL (h x) = Some z" and pz: "prevL (h z) = Some x"
      and c: "seg h (Some z) (nextL (h z)) zs' None lst" by auto
    have lst: "lst = (if zs' = [] then Some z else Some (last zs'))" using seg_last[OF c] by simp
    show ?thesis
    proof (cases ys rule: rev_cases)
      case Nil
      with zs a b pl d nx pz c show ?thesis
        by (auto simp: unlink_def seg_upd_notin)
    next
      case (snoc ys' y)
      with zs a b pl l d nx pz c show ?thesis
        by (auto simp: unlink_def seg_append seg_upd_notin)
    qed
  qed
  from main pl l n own cb show ?thesis by (auto split: if_splits)
qed

lemma reg_get: "reg s c us \<Longrightarrow> get c s = Some (map (lis s) us)"
  unfolding reg_def get_def using get_loop_seg[where acc="[]"] by auto

lemma reg_distinct: "reg s c us \<Longrightarrow> distinct (map (lis s) us) \<and> distinct us"
proof -
  assume "reg s c us"
  then have "distinct (map (lis s) us)" unfolding reg_def using seg_distinct by blast
  then show ?thesis by (simp add: distinct_map)
qed

lemma subscribe_fields:
  "fst (subscribe c cb s) = nunsubs s"
  "cells (snd (subscribe c cb s)) = link_tail (cells s) cb (ncells s) (lastL (cols s c))"
  "cols (snd (subscribe c cb s)) =
     (cols s)(c := \<lparr>firstL = (if lastL (cols s c) = None then Some (ncells s) else firstL (cols s c)),
                     lastL = Some (ncells s)\<rparr>)"
  "unsubs (snd (subscribe c cb s)) =
     (unsubs s)(nunsubs s := \<lparr>u_col = c, u_listener = ncells s, u_isSubscribed = True\<rparr>)"
  "nunsubs (snd (subscribe c cb s)) = Suc (nunsubs s)"
  "ncells (snd (subscribe c cb s)) = Suc (ncells s)"
  "ncols (snd (subscribe c cb s)) = ncols s"
  "cleanups (snd (subscribe c cb s)) = cleanups s"
  "ncleanups (snd (subscribe c cb s)) = ncleanups s"
  "subs (snd (subscribe c cb s)) = subs s"
  "store_listeners (snd (subscribe c cb s)) = store_listeners s"
  "nstore (snd (subscribe c cb s)) = nstore s"
  "store_state (snd (subscribe c cb s)) = store_state s"
  "calls (snd (subscribe c cb s)) = calls s"
  by (auto simp: subscribe_def Let_def upd_col_def upd_cell_def link_tail_def fun_eq_iff
           split: option.splits)

lemma unlink_self: "nextL (unlink h l l) = nextL (h l) \<and> prevL (unlink h l l) = prevL (h l)"
  by (auto simp: unlink_def Let_def split: option.splits)

lemma unsubscribe_cl_noop:
  "\<not> u_isSubscribed (unsubs s u) \<or> firstL (cols s (u_col (unsubs s u))) = None \<Longrightarrow>
   unsubscribe_cl u s = s"
  by (auto simp: unsubscribe_cl_def Let_def)

lemma unsubscribe_cl_fields:
  assumes "u_isSubscribed (unsubs s u)" and "firstL (cols s (u_col (unsubs s u))) \<noteq> None"
  shows
  "cells (unsubscribe_cl u s) = unlink (cells s) (lis s u)"
  "cols (unsubscribe_cl u s) =
     (cols s)(u_col (unsubs s u) :=
        \<lparr>firstL = (if prevL (cells s (lis s u)) = None then nextL (cells s (lis s u))
                   else firstL (cols s (u_col (unsubs s u)))),
         lastL = (if nextL (cells s (lis s u)) = None then prevL (cells s (lis s u))
                  else lastL (cols s (u_col (unsubs s u))))\<rparr>)"
  "unsubs (unsubscribe_cl u s) = (unsubs s)(u := (unsubs s u)\<lparr>u_isSubscribed := False\<rparr>)"
  using assms
  by (auto simp: unsubscribe_cl_def Let_def upd_col_def upd_cell_def unlink_def lis_def fun_eq_iff
           split: option.splits)

lemma unsubscribe_cl_same:
  "nunsubs (unsubscribe_cl u s) = nunsubs s"
  "ncells (unsubscribe_cl u s) = ncells s"
  "ncols (unsubscribe_cl u s) = ncols s"
  "cleanups (unsubscribe_cl u s) = cleanups s"
  "ncleanups (unsubscribe_cl u s) = ncleanups s"
  "subs (unsubscribe_cl u s) = subs s"
  "store_listeners (unsubscribe_cl u s) = store_listeners s"
  "nstore (unsubscribe_cl u s) = nstore s"
  "store_state (unsubscribe_cl u s) = store_state s"
  "calls (unsubscribe_cl u s) = calls s"
  by (auto simp: unsubscribe_cl_def Let_def upd_col_def upd_cell_def split: option.splits)

lemma reg_subscribe:
  assumes "reg s c us"
  shows "reg (snd (subscribe c cb s)) c (us @ [nunsubs s])"
proof -
  let ?s = "snd (subscribe c cb s)"
  from assms have sg: "seg (cells s) None (firstL (cols s c)) (map (lis s) us) None (lastL (cols s c))"
    and iff: "\<forall>u. (u \<in> set us) = u_isSubscribed (unsubs s u)"
    and bnd: "\<forall>u\<in>set us. u_col (unsubs s u) = c \<and> u < nunsubs s \<and> lis s u < ncells s"
    by (auto simp: reg_def)
  have fresh_u: "nunsubs s \<notin> set us" using bnd by auto
  have fresh_l: "ncells s \<notin> set (map (lis s) us)" using bnd by auto
  have lis_old: "map (lis ?s) us = map (lis s) us"
    using fresh_u by (auto simp: lis_def subscribe_fields)
  have lis_new: "lis ?s (nunsubs s) = ncells s" by (simp add: lis_def subscribe_fields)
  have e: "(lastL (cols s c) = None) = (us = [])"
    using seg_last[OF sg] by (auto split: if_splits)
  have "seg (cells ?s) None (firstL (cols ?s c)) (map (lis ?s) (us @ [nunsubs s])) None (lastL (cols ?s c))"
    using seg_link_tail[OF sg fresh_l, of cb] e
    by (simp add: subscribe_fields lis_old lis_new)
  moreover have "\<forall>u. (u \<in> set (us @ [nunsubs s])) = u_isSubscribed (unsubs ?s u)"
    using iff by (auto simp: subscribe_fields)
  moreover have "\<forall>u\<in>set (us @ [nunsubs s]). u_col (unsubs ?s u) = c \<and> u < nunsubs ?s \<and> lis ?s u < ncells ?s"
    using bnd by (auto simp: subscribe_fields lis_def)
  ultimately show ?thesis unfolding reg_def by blast
qed

lemma reg_unsubscribe:
  assumes "reg s c us" and "u \<in> set us"
  shows "reg (unsubscribe_cl u s) c (removeAll u us)"
    and "cells (unsubscribe_cl u s) (lis s u) = cells s (lis s u)"
    and "\<forall>a. callback (cells (unsubscribe_cl u s) a) = callback (cells s a)"
    and "\<forall>v. lis (unsubscribe_cl u s) v = lis s v"
proof -
  let ?s = "unsubscribe_cl u s"
  from assms have sg: "seg (cells s) None (firstL (cols s c)) (map (lis s) us) None (lastL (cols s c))"
    and iff: "\<forall>u. (u \<in> set us) = u_isSubscribed (unsubs s u)"
    and bnd: "\<forall>u\<in>set us. u_col (unsubs s u) = c \<and> u < nunsubs s \<and> lis s u < ncells s"
    by (auto simp: reg_def)
  from assms(2) obtain ys zs where us: "us = ys @ u # zs" by (auto simp: in_set_conv_decomp)
  have dus: "distinct us" using reg_distinct[OF assms(1)] by simp
  have rem: "removeAll u us = ys @ zs" using dus us by auto
  have act: "u_isSubscribed (unsubs s u)" using iff assms(2) by auto
  have col: "u_col (unsubs s u) = c" using bnd assms(2) by auto
  have ne: "firstL (cols s c) \<noteq> None" using sg us by (cases ys) auto
  note f = unsubscribe_cl_fields[OF act, unfolded col, OF ne]
  have lis_eq: "\<forall>v. lis ?s v = lis s v" by (auto simp: lis_def f)
  from sg us have sg': "seg (cells s) None (firstL (cols s c)) (map (lis s) ys @ lis s u # map (lis s) zs) None (lastL (cols s c))"
    by simp
  note ul = unlink_seg[OF sg']
  have "seg (cells ?s) None (firstL (cols ?s c)) (map (lis ?s) (removeAll u us)) None (lastL (cols ?s c))"
    using ul lis_eq by (simp add: f rem cong: map_cong)
  moreover have "\<forall>v. (v \<in> set (removeAll u us)) = u_isSubscribed (unsubs ?s v)"
    using iff by (auto simp: f)
  moreover have "\<forall>v\<in>set (removeAll u us). u_col (unsubs ?s v) = c \<and> v < nunsubs ?s \<and> lis ?s v < ncells ?s"
    using bnd lis_eq by (auto simp: f unsubscribe_cl_same)
  ultimately show "reg ?s c (removeAll u us)" unfolding reg_def by blast
  show "cells ?s (lis s u) = cells s (lis s u)" using ul by (simp add: f)
  show "\<forall>a. callback (cells ?s a) = callback (cells s a)" using ul by (simp add: f)
  show "\<forall>v. lis ?s v = lis s v" by (rule lis_eq)
qed

lemma reg_unsubscribe_notin:
  assumes "reg s c us" and "u \<notin> set us"
  shows "unsubscribe_cl u s = s"
  using assms by (auto simp: reg_def intro: unsubscribe_cl_noop)

lemma callback_link_tail:
  "callback (link_tail h cb l lst a) = (if a = l then cb else callback (h a))"
  by (auto simp: link_tail_def Let_def split: option.splits)

lemma callback_unlink: "callback (unlink h x a) = callback (h a)"
  by (auto simp: unlink_def Let_def split: option.splits)

lemma callback_unsubscribe_cl: "callback (cells (unsubscribe_cl u s) a) = callback (cells s a)"
proof (cases "\<not> u_isSubscribed (unsubs s u) \<or> firstL (cols s (u_col (unsubs s u))) = None")
  case True
  then show ?thesis by (simp add: unsubscribe_cl_noop)
next
  case False
  then show ?thesis by (simp add: unsubscribe_cl_fields callback_unlink)
qed

lemma reg_run_inv:
  assumes "reg s c us" and "nunsubs s = m" and "ncells s = m" and "\<forall>u\<in>set us. lis s u = u"
    and "wf_ops m ops" and "length cbs = m" and "\<forall>k<m. callback (cells s k) = cbs ! k"
  shows "reg (reg_run c ops s) c
           ([u \<leftarrow> us. Unsub u \<notin> set ops] @ [k \<leftarrow> [m..<m + length (sub_cbs ops)]. Unsub k \<notin> set ops])
         \<and> (\<forall>u. u_isSubscribed (unsubs (reg_run c ops s) u) \<longrightarrow> lis (reg_run c ops s) u = u)
         \<and> (\<forall>k<m + length (sub_cbs ops). callback (cells (reg_run c ops s) k) = (cbs @ sub_cbs ops) ! k)"
  using assms
proof (induction ops arbitrary: s us m cbs)
  case Nil
  then show ?case by (auto simp: reg_def)
next
  case (Cons op ops)
  show ?case
  proof (cases op)
    case (Sub cb)
    let ?s = "snd (subscribe c cb s)"
    have r: "reg ?s c (us @ [m])" using reg_subscribe[OF Cons.prems(1)] Cons.prems(2) by simp
    have l: "\<forall>u\<in>set (us @ [m]). lis ?s u = u"
      using Cons.prems r by (auto simp: lis_def subscribe_fields reg_def)
    have cbs: "\<forall>k<Suc m. callback (cells ?s k) = (cbs @ [cb]) ! k"
      using Cons.prems by (auto simp: subscribe_fields callback_link_tail nth_append)
    have "m \<notin> set us" using Cons.prems(1,2) by (auto simp: reg_def)
    have w: "wf_ops (Suc m) ops" using Cons.prems(5) Sub by simp
    have n1: "nunsubs ?s = Suc m" and n2: "ncells ?s = Suc m" and len: "length (cbs @ [cb]) = Suc m"
      using Cons.prems by (auto simp: subscribe_fields)
    note ih = Cons.IH[OF r n1 n2 l w len cbs]
    have f: "[k \<leftarrow> [m..<Suc (m + length (sub_cbs ops))]. Unsub k \<notin> set ops]
           = [k \<leftarrow> [m]. Unsub k \<notin> set ops] @ [k \<leftarrow> [Suc m..<Suc (m + length (sub_cbs ops))]. Unsub k \<notin> set ops]"
      by (simp add: upt_conv_Cons del: upt_Suc)
    from ih Cons.prems(6) show ?thesis
      using Sub \<open>m \<notin> set us\<close> by (simp add: f del: upt_Suc)
  next
    case (Unsub u)
    let ?s = "unsubscribe_cl u s"
    from Cons.prems(5) Unsub have um: "u < m" and w: "wf_ops m ops" by auto
    have r: "reg ?s c (removeAll u us)"
      using reg_unsubscribe(1)[OF Cons.prems(1)] reg_unsubscribe_notin[OF Cons.prems(1)]
        Cons.prems(1)
      by (cases "u \<in> set us") auto
    have lis_eq: "\<forall>v. lis ?s v = lis s v"
      using reg_unsubscribe(4)[OF Cons.prems(1)] reg_unsubscribe_notin[OF Cons.prems(1)]
      by (cases "u \<in> set us") auto
    have l: "\<forall>v\<in>set (removeAll u us). lis ?s v = v" using Cons.prems(4) lis_eq by auto
    have cbs: "\<forall>k<m. callback (cells ?s k) = cbs ! k"
      using Cons.prems(7) by (simp add: callback_unsubscribe_cl)
    have n1: "nunsubs ?s = m" and n2: "ncells ?s = m"
      using Cons.prems by (auto simp: unsubscribe_cl_same)
    note ih = Cons.IH[OF r n1 n2 l w Cons.prems(6) cbs]
    have f1: "[v \<leftarrow> removeAll u us. Unsub v \<notin> set ops] = [v \<leftarrow> us. Unsub v \<notin> set (op # ops)]"
      using Unsub by (induction us) auto
    have f2: "[k \<leftarrow> [m..<m + length (sub_cbs ops)]. Unsub k \<notin> set ops]
            = [k \<leftarrow> [m..<m + length (sub_cbs ops)]. Unsub k \<notin> set (op # ops)]"
      using um Unsub by (intro filter_cong) auto
    from ih show ?thesis
      using Unsub by (simp add: f1 f2)
  qed
qed

lemma reg_fresh: "reg fresh_registry 0 []"
  by (simp add: reg_def fresh_registry_def createListenerCollection_def init_def)

lemma fresh_counts: "nunsubs fresh_registry = 0" "ncells fresh_registry = 0"
  by (simp_all add: fresh_registry_def createListenerCollection_def init_def)

section \<open>Lemmas on the subscription nodes\<close>

lemma st_simps [simp]: "st (Ok x s) = s" "st (Exn e s) = s"
  by (simp_all add: st_def)

lemma mono_refl [simp]: "mono s s"
  by (simp add: mono_def)

lemma mono_trans: "mono s s1 \<Longrightarrow> mono s1 s2 \<Longrightarrow> mono s s2"
  by (auto simp: mono_def)

lemma up_events_simps [simp]:
  "up_events i []"
  "up_events i (es @ es') = (up_events i es \<and> up_events i es')"
  "up_events i (e # es) = ((\<exists>j\<le>i. e = UpstreamSubscribed j \<or> e = UpstreamUnsubscribed j) \<and> up_events i es)"
  by (auto simp: up_events_def)

lemma up_events_mono: "up_events p es \<Longrightarrow> p \<le> i \<Longrightarrow> up_events i es"
  by (fastforce simp: up_events_def)

lemma count_live_cong:
  "\<forall>a<n. cl' a = cl a \<Longrightarrow> count_live cl' i n = count_live cl i n"
  by (induction n) auto

lemma count_live_flip:
  "k < n \<Longrightarrow> \<not> removed (cl k) \<Longrightarrow> cl' k = (cl k)\<lparr>removed := True\<rparr> \<Longrightarrow>
   \<forall>a. a \<noteq> k \<longrightarrow> cl' a = cl a \<Longrightarrow>
   int (count_live cl' i n) = int (count_live cl i n) - (if owner (cl k) = i then 1 else 0)
   \<and> (owner (cl k) = i \<longrightarrow> 1 \<le> count_live cl i n)"
proof (induction n)
  case 0
  then show ?case by simp
next
  case (Suc n)
  show ?case
  proof (cases "k = n")
    case True
    have "count_live cl' i n = count_live cl i n"
      using Suc.prems(4) True by (intro count_live_cong) auto
    with True Suc.prems show ?thesis by simp
  next
    case False
    with Suc.prems have "k < n" by simp
    from Suc.IH[OF this Suc.prems(2,3,4)] False Suc.prems(4) show ?thesis by auto
  qed
qed

lemma debt_same:
  "cleanups s' = cleanups s \<Longrightarrow> ncleanups s' = ncleanups s \<Longrightarrow>
   \<forall>j. subscriptionsAmount (subs s' j) = subscriptionsAmount (subs s j)
       \<and> selfSubscribed (subs s' j) = selfSubscribed (subs s j) \<Longrightarrow>
   debt s' = debt s"
  by (rule ext) (simp add: debt_def reasons_def)

lemma W_same:
  "cleanups s' = cleanups s \<Longrightarrow> ncleanups s' = ncleanups s \<Longrightarrow>
   \<forall>j. parentSub (subs s' j) = parentSub (subs s j)
       \<and> unsubscribe (subs s' j) = unsubscribe (subs s j) \<Longrightarrow>
   W s' = W s"
  by (simp add: W_def parent_ok_def handles_ok_def handle_ok_def glob_def
           cong: option.case_cong func.case_cong)

lemma mono_same:
  "cleanups s' = cleanups s \<Longrightarrow> ncleanups s' = ncleanups s \<Longrightarrow>
   \<forall>j. parentSub (subs s' j) = parentSub (subs s j) \<Longrightarrow>
   mono s s' \<and> mono s' s"
  by (simp add: mono_def)

lemma handle_ok_mono: "mono s s' \<Longrightarrow> handle_ok s par h \<Longrightarrow> handle_ok s' par h"
  by (auto simp: handle_ok_def mono_def split: option.splits func.splits)

lemma W_step:
  assumes "W s" and "mono s s'"
    and "\<forall>j h. unsubscribe (subs s' j) = Some h \<longrightarrow>
           unsubscribe (subs s j) = Some h \<or> handle_ok s' (parentSub (subs s j)) h"
    and "\<forall>k\<ge>ncleanups s'. removed (cleanups s' k)"
  shows "W s'"
proof -
  have "parent_ok s'" using assms(1,2) by (simp add: W_def parent_ok_def mono_def)
  moreover have "handles_ok s'"
    unfolding handles_ok_def
  proof (intro allI impI)
    fix j h assume a: "unsubscribe (subs s' j) = Some h"
    have p: "parentSub (subs s' j) = parentSub (subs s j)" using assms(2) by (simp add: mono_def)
    from assms(3) a have "unsubscribe (subs s j) = Some h \<or> handle_ok s' (parentSub (subs s j)) h"
      by blast
    then show "handle_ok s' (parentSub (subs s' j)) h"
    proof
      assume "unsubscribe (subs s j) = Some h"
      with assms(1) have "handle_ok s (parentSub (subs s j)) h" by (simp add: W_def handles_ok_def)
      with assms(2) p show ?thesis by (simp add: handle_ok_mono)
    next
      assume "handle_ok s' (parentSub (subs s j)) h"
      with p show ?thesis by simp
    qed
  qed
  ultimately show ?thesis using assms(4) by (simp add: W_def glob_def)
qed

lemma createListenerCollection_fields:
  "fst (createListenerCollection s) = ncols s"
  "cells (snd (createListenerCollection s)) = cells s"
  "cols (snd (createListenerCollection s)) = (cols s)(ncols s := \<lparr>firstL = None, lastL = None\<rparr>)"
  "ncols (snd (createListenerCollection s)) = Suc (ncols s)"
  "unsubs (snd (createListenerCollection s)) = unsubs s"
  "nunsubs (snd (createListenerCollection s)) = nunsubs s"
  "ncells (snd (createListenerCollection s)) = ncells s"
  "cleanups (snd (createListenerCollection s)) = cleanups s"
  "ncleanups (snd (createListenerCollection s)) = ncleanups s"
  "subs (snd (createListenerCollection s)) = subs s"
  "store_listeners (snd (createListenerCollection s)) = store_listeners s"
  "nstore (snd (createListenerCollection s)) = nstore s"
  "store_state (snd (createListenerCollection s)) = store_state s"
  "calls (snd (createListenerCollection s)) = calls s"
  by (simp_all add: createListenerCollection_def)

lemma trySubscribe_Suc:
  "trySubscribe (Suc n) i s =
     (let s1 = upd_sub i (\<lambda>x. x\<lparr>subscriptionsAmount := subscriptionsAmount x + 1\<rparr>) s in
      if unsubscribe (subs s i) = None then
        (case parentSub (subs s i) of
           Some p \<Rightarrow>
             (case addNestedSub n p (HandleChangeWrapper i) (emit (UpstreamSubscribed i) s1) of
                Some (Ok k s2) \<Rightarrow> Some (Ok () (connect i (Cleanup k) s2))
              | Some (Exn e s2) \<Rightarrow> Some (Exn e s2)
              | None \<Rightarrow> None)
         | None \<Rightarrow>
             Some (Ok () (connect i (StoreUnsubscribe (nstore s))
                (snd (store_subscribe (HandleChangeWrapper i) (emit (UpstreamSubscribed i) s1))))))
      else Some (Ok () s1))"
  by (auto simp: Let_def upd_sub_def emit_def store_subscribe_def createListenerCollection_def
           connect_def split: option.splits result.splits)

lemma tryUnsubscribe_Suc:
  "tryUnsubscribe (Suc n) i s =
     (let s1 = upd_sub i (\<lambda>x. x\<lparr>subscriptionsAmount := subscriptionsAmount x - 1\<rparr>) s in
      case unsubscribe (subs s i) of
        Some h \<Rightarrow>
          if subscriptionsAmount (subs s i) = 1 then
            (case call n h (emit (UpstreamUnsubscribed i) s1) of
               Some (Ok _ s2) \<Rightarrow>
                 (case listeners (subs s2 i) of
                    None \<Rightarrow> Some (Exn TypeError (upd_sub i (\<lambda>x. x\<lparr>unsubscribe := None\<rparr>) s2))
                  | Some c \<Rightarrow> Some (Ok () (disconnect i c s2)))
             | Some (Exn e s2) \<Rightarrow> Some (Exn e s2)
             | None \<Rightarrow> None)
          else Some (Ok () s1)
      | None \<Rightarrow> Some (Ok () s1))"
  by (auto simp: Let_def upd_sub_def emit_def disconnect_def clear_def upd_col_def
           split: option.splits result.splits)

lemma addNestedSub_Suc:
  "addNestedSub (Suc n) i f s =
     (case trySubscribe n i s of
        Some (Ok _ s1) \<Rightarrow>
          (case listeners (subs s1 i) of
             None \<Rightarrow> Some (Exn TypeError s1)
           | Some c \<Rightarrow> Some (Ok (ncleanups s1) (register i c f s1)))
      | Some (Exn e s1) \<Rightarrow> Some (Exn e s1)
      | None \<Rightarrow> None)"
  by (auto simp: Let_def register_def subscribe_fields split_beta
           split: option.splits result.splits)

lemma call_Cleanup_Suc:
  "call (Suc n) (Cleanup k) s =
     (if \<not> removed (cleanups s k)
      then tryUnsubscribe n (owner (cleanups s k))
             (unsubscribe_cl (cleanupListener (cleanups s k)) (flip k s))
      else Some (Ok () s))"
  by (simp add: Let_def unsubscribe_cl_same flip_def)

declare trySubscribe.simps(2) [simp del] tryUnsubscribe.simps(2) [simp del]
  addNestedSub.simps(2) [simp del] call.simps(12) [simp del]

lemma connect_fields:
  "subs (connect i h s) = (subs s)(i := (subs s i)\<lparr>unsubscribe := Some h, listeners := Some (ncols s)\<rparr>)"
  "cleanups (connect i h s) = cleanups s"
  "ncleanups (connect i h s) = ncleanups s"
  "calls (connect i h s) = calls s"
  "cols (connect i h s) = (cols s)(ncols s := \<lparr>firstL = None, lastL = None\<rparr>)"
  "ncols (connect i h s) = Suc (ncols s)"
  "cells (connect i h s) = cells s"
  "ncells (connect i h s) = ncells s"
  "unsubs (connect i h s) = unsubs s"
  "nunsubs (connect i h s) = nunsubs s"
  "store_listeners (connect i h s) = store_listeners s"
  "nstore (connect i h s) = nstore s"
  "store_state (connect i h s) = store_state s"
  by (simp_all add: connect_def upd_sub_def createListenerCollection_def fun_eq_iff)

lemma disconnect_fields:
  "subs (disconnect i c s) = (subs s)(i := (subs s i)\<lparr>unsubscribe := None, listeners := None\<rparr>)"
  "cleanups (disconnect i c s) = cleanups s"
  "ncleanups (disconnect i c s) = ncleanups s"
  "calls (disconnect i c s) = calls s"
  "cols (disconnect i c s) = (cols s)(c := \<lparr>firstL = None, lastL = None\<rparr>)"
  "ncols (disconnect i c s) = ncols s"
  "cells (disconnect i c s) = cells s"
  "ncells (disconnect i c s) = ncells s"
  "unsubs (disconnect i c s) = unsubs s"
  "nunsubs (disconnect i c s) = nunsubs s"
  "store_listeners (disconnect i c s) = store_listeners s"
  "nstore (disconnect i c s) = nstore s"
  "store_state (disconnect i c s) = store_state s"
  by (simp_all add: disconnect_def upd_sub_def clear_def upd_col_def fun_eq_iff)

lemma register_fields:
  "subs (register i c f s) = subs s"
  "cleanups (register i c f s) = (cleanups s)(ncleanups s :=
      \<lparr>owner = i, cleanupListener = nunsubs s, removed = False\<rparr>)"
  "ncleanups (register i c f s) = Suc (ncleanups s)"
  "calls (register i c f s) = calls s"
  "cells (register i c f s) = cells (snd (subscribe c f s))"
  "cols (register i c f s) = cols (snd (subscribe c f s))"
  "unsubs (register i c f s) = unsubs (snd (subscribe c f s))"
  "nunsubs (register i c f s) = Suc (nunsubs s)"
  "ncells (register i c f s) = Suc (ncells s)"
  "ncols (register i c f s) = ncols s"
  "store_listeners (register i c f s) = store_listeners s"
  "nstore (register i c f s) = nstore s"
  "store_state (register i c f s) = store_state s"
  by (simp_all add: register_def Let_def subscribe_fields)

lemma rel0_refl [simp]: "rel0 i s s"
  by (simp add: rel0_def frame_def)

lemma rel0_trans: "rel0 i s s1 \<Longrightarrow> rel0 i s1 s2 \<Longrightarrow> rel0 i s s2"
  by (auto simp: rel0_def frame_def intro: mono_trans)

lemma rel0_weaken: "rel0 p s s' \<Longrightarrow> p \<le> i \<Longrightarrow> rel0 i s s'"
  by (auto simp: rel0_def frame_def intro: up_events_mono)

lemma rel0_mono: "rel0 i s s' \<Longrightarrow> mono s s'"
  by (simp add: rel0_def)

lemma inc_dec_fields:
  "subs (inc i s) = (subs s)(i := (subs s i)\<lparr>subscriptionsAmount := subscriptionsAmount (subs s i) + 1\<rparr>)"
  "subs (dec i s) = (subs s)(i := (subs s i)\<lparr>subscriptionsAmount := subscriptionsAmount (subs s i) - 1\<rparr>)"
  "cleanups (inc i s) = cleanups s" "cleanups (dec i s) = cleanups s"
  "ncleanups (inc i s) = ncleanups s" "ncleanups (dec i s) = ncleanups s"
  "calls (inc i s) = calls s" "calls (dec i s) = calls s"
  "store_state (inc i s) = store_state s" "store_state (dec i s) = store_state s"
  by (simp_all add: inc_def dec_def upd_sub_def)

lemma emit_fields:
  "store_state (emit e s) = store_state s"
  "subs (emit e s) = subs s" "cleanups (emit e s) = cleanups s" "ncleanups (emit e s) = ncleanups s"
  "calls (emit e s) = calls s @ [e]"
  by (simp_all add: emit_def)

lemma flip_fields:
  "store_state (flip k s) = store_state s"
  "subs (flip k s) = subs s" "ncleanups (flip k s) = ncleanups s" "calls (flip k s) = calls s"
  "cleanups (flip k s) = (cleanups s)(k := (cleanups s k)\<lparr>removed := True\<rparr>)"
  by (simp_all add: flip_def)

lemma store_subscribe_fields:
  "fst (store_subscribe cb s) = StoreUnsubscribe (nstore s)"
  "store_state (snd (store_subscribe cb s)) = store_state s"
  "subs (snd (store_subscribe cb s)) = subs s"
  "cleanups (snd (store_subscribe cb s)) = cleanups s"
  "ncleanups (snd (store_subscribe cb s)) = ncleanups s"
  "calls (snd (store_subscribe cb s)) = calls s"
  "ncols (snd (store_subscribe cb s)) = ncols s"
  by (simp_all add: store_subscribe_def)

lemma store_unsubscribe_fields:
  "subs (store_unsubscribe m s) = subs s"
  "store_state (store_unsubscribe m s) = store_state s"
  "cleanups (store_unsubscribe m s) = cleanups s"
  "ncleanups (store_unsubscribe m s) = ncleanups s"
  "calls (store_unsubscribe m s) = calls s"
  by (simp_all add: store_unsubscribe_def)

lemmas step_fields = inc_dec_fields emit_fields flip_fields store_subscribe_fields
  store_unsubscribe_fields connect_fields disconnect_fields register_fields unsubscribe_cl_same

text \<open>W through the basic steps\<close>

lemma W_steps:
  "W (inc i s) = W s" "W (dec i s) = W s" "W (emit e s) = W s"
  "W (snd (store_subscribe cb s)) = W s" "W (store_unsubscribe m s) = W s"
  "W (unsubscribe_cl u s) = W s"
  by (rule W_same; simp add: step_fields)+

lemma W_glob: "W s \<Longrightarrow> ncleanups s \<le> k \<Longrightarrow> removed (cleanups s k)"
  by (simp add: W_def glob_def)

lemma W_flip: "W s \<Longrightarrow> W (flip k s)"
  by (rule W_step[of s]) (auto simp: mono_def step_fields dest: W_glob)

lemma W_disconnect: "W s \<Longrightarrow> W (disconnect i c s)"
  by (rule W_step[of s]) (auto simp: mono_def step_fields dest: W_glob)

lemma W_register: "W s \<Longrightarrow> W (register i c f s)"
  by (rule W_step[of s]) (auto simp: mono_def step_fields intro: W_glob Suc_leD)

lemma W_connect:
  "W s \<Longrightarrow> handle_ok s (parentSub (subs s i)) h \<Longrightarrow> W (connect i h s)"
  by (rule W_step[of s]) (auto simp: mono_def step_fields handle_ok_def dest: W_glob
        split: option.splits func.splits)

text \<open>rel0 through the basic steps\<close>

lemma rel0_steps:
  "rel0 i s (inc i s)" "rel0 i s (dec i s)"
  "rel0 i s (emit (UpstreamSubscribed i) s)" "rel0 i s (emit (UpstreamUnsubscribed i) s)"
  "rel0 i s (snd (store_subscribe cb s))" "rel0 i s (store_unsubscribe m s)"
  "rel0 i s (unsubscribe_cl u s)" "rel0 i s (flip k s)"
  "rel0 i s (connect i h s)" "rel0 i s (disconnect i c s)" "rel0 i s (register i c f s)"
  by (auto simp: rel0_def mono_def frame_def step_fields)

text \<open>debt through the basic steps\<close>

lemma debt_steps:
  "debt (emit e s) = debt s" "debt (snd (store_subscribe cb s)) = debt s"
  "debt (store_unsubscribe m s) = debt s" "debt (unsubscribe_cl u s) = debt s"
  "debt (connect i h s) = debt s" "debt (disconnect i c s) = debt s"
  by (rule debt_same; simp add: step_fields)+

lemma debt_inc: "debt (inc i s) = (debt s)(i := debt s i + 1)"
  by (rule ext) (simp add: debt_def reasons_def step_fields)

lemma debt_dec: "debt (dec i s) = (debt s)(i := debt s i - 1)"
  by (rule ext) (simp add: debt_def reasons_def step_fields)

lemma debt_register: "debt (register i c f s) = (debt s)(i := debt s i - 1)"
proof (rule ext)
  fix j
  have "count_live ((cleanups s)(ncleanups s := \<lparr>owner = i, cleanupListener = nunsubs s, removed = False\<rparr>)) j (ncleanups s)
        = count_live (cleanups s) j (ncleanups s)"
    by (rule count_live_cong) simp
  then show "debt (register i c f s) j = ((debt s)(i := debt s i - 1)) j"
    by (simp add: debt_def reasons_def step_fields)
qed

lemma debt_flip:
  assumes "\<not> removed (cleanups s k)" and "k < ncleanups s"
  shows "debt (flip k s) = (debt s)(owner (cleanups s k) := debt s (owner (cleanups s k)) + 1)"
    and "1 \<le> reasons s (owner (cleanups s k))"
proof -
  have a: "int (count_live (cleanups (flip k s)) j (ncleanups s))
      = int (count_live (cleanups s) j (ncleanups s)) - (if owner (cleanups s k) = j then 1 else 0)
    \<and> (owner (cleanups s k) = j \<longrightarrow> 1 \<le> count_live (cleanups s) j (ncleanups s))" for j
    using count_live_flip[where cl="cleanups s" and cl'="cleanups (flip k s)" and k=k
                            and n="ncleanups s" and i=j] assms
    by (simp add: step_fields)
  show "debt (flip k s) = (debt s)(owner (cleanups s k) := debt s (owner (cleanups s k)) + 1)"
    using a by (intro ext) (simp add: debt_def reasons_def step_fields)
  show "1 \<le> reasons s (owner (cleanups s k))"
    using a[of "owner (cleanups s k)"] by (simp add: reasons_def)
qed

lemma hp_Ok: "W s' \<Longrightarrow> rel0 i s s' \<Longrightarrow> debt s' = (debt s)(i := debt s i + d) \<Longrightarrow> hp i d s (Ok x s')"
  by (simp add: hp_def)

lemma hp_Exn: "W s' \<Longrightarrow> rel0 i s s' \<Longrightarrow> hp i d s (Exn e s')"
  by (simp add: hp_def)

lemma hp_gpost: "hp i d s r \<Longrightarrow> gpost s r"
  by (simp add: hp_def gpost_def rel0_def)

lemma hp_W: "hp i d s r \<Longrightarrow> W (st r)"
  by (simp add: hp_def)

lemma hp_rel0: "hp i d s r \<Longrightarrow> rel0 i s (st r)"
  by (simp add: hp_def)

lemma hp_debt: "hp i d s (Ok x s') \<Longrightarrow> debt s' = (debt s)(i := debt s i + d)"
  by (simp add: hp_def)

lemma hp_debt0: "hp i 0 s (Ok x s') \<Longrightarrow> debt s' = debt s"
  by (simp add: hp_def)

lemma W_parent: "W s \<Longrightarrow> parentSub (subs s i) = Some p \<Longrightarrow> p < i"
  by (simp add: W_def parent_ok_def)

lemma W_handle: "W s \<Longrightarrow> unsubscribe (subs s i) = Some h \<Longrightarrow> handle_ok s (parentSub (subs s i)) h"
  by (simp add: W_def handles_ok_def)

lemma L1_trySubscribe:
  assumes ih: "L1 n" and w: "W s" and run: "trySubscribe (Suc n) i s = Some r"
  shows "hp i 1 s r"
proof (cases "unsubscribe (subs s i) = None")
  case False
  with run have "r = Ok () (inc i s)" by (auto simp: trySubscribe_Suc Let_def inc_def)
  with w show ?thesis by (simp add: hp_Ok W_steps rel0_steps debt_inc)
next
  case True
  note noh = this
  let ?s1 = "emit (UpstreamSubscribed i) (inc i s)"
  have w1: "W ?s1" using w by (simp add: W_steps)
  have r1: "rel0 i s ?s1" by (rule rel0_trans[OF rel0_steps(1) rel0_steps(3)])
  have d1: "debt ?s1 = (debt s)(i := debt s i + 1)" by (simp add: debt_steps debt_inc)
  show ?thesis
  proof (cases "parentSub (subs s i)")
    case None
    let ?s2 = "snd (store_subscribe (HandleChangeWrapper i) ?s1)"
    let ?s3 = "connect i (StoreUnsubscribe (nstore s)) ?s2"
    from run noh None have r: "r = Ok () ?s3"
      by (simp add: trySubscribe_Suc Let_def inc_def)
    have w2: "W ?s2" using w1 by (simp add: W_steps)
    have "W ?s3" using w2 None
      by (intro W_connect) (simp_all add: handle_ok_def step_fields)
    moreover have "rel0 i s ?s3"
      by (rule rel0_trans[OF r1 rel0_trans[OF rel0_steps(5) rel0_steps(9)]])
    moreover have "debt ?s3 = (debt s)(i := debt s i + 1)" by (simp add: debt_steps debt_inc)
    ultimately show ?thesis using r by (simp add: hp_Ok)
  next
    case (Some p)
    have pi: "p < i" using W_parent[OF w Some] .
    from run noh Some obtain r2 where a: "addNestedSub n p (HandleChangeWrapper i) ?s1 = Some r2"
      by (auto simp: trySubscribe_Suc Let_def inc_def split: option.splits)
    from ih w1 a have h2: "hp p 0 ?s1 r2"
      and k2: "\<forall>k s'. r2 = Ok k s' \<longrightarrow> k < ncleanups s' \<and> owner (cleanups s' k) = p"
      unfolding L1_def by blast+
    have r2s: "rel0 i s (st r2)"
      using rel0_trans[OF r1 rel0_weaken[OF hp_rel0[OF h2]]] pi by simp
    show ?thesis
    proof (cases r2)
      case (Exn e s2)
      with run noh Some a have "r = Exn e s2"
        by (simp add: trySubscribe_Suc Let_def inc_def)
      with hp_W[OF h2] r2s Exn show ?thesis by (simp add: hp_Exn)
    next
      case (Ok k s2)
      with run noh Some a have r: "r = Ok () (connect i (Cleanup k) s2)"
        by (simp add: trySubscribe_Suc Let_def inc_def)
      have w2: "W s2" using hp_W[OF h2] Ok by simp
      have par: "parentSub (subs s2 i) = Some p"
        using r2s Ok Some by (simp add: rel0_def mono_def)
      have "W (connect i (Cleanup k) s2)"
        using w2 par k2 Ok by (intro W_connect) (simp_all add: handle_ok_def)
      moreover have "rel0 i s (connect i (Cleanup k) s2)"
        using rel0_trans[OF r2s rel0_steps(9)] Ok by simp
      moreover have "debt (connect i (Cleanup k) s2) = (debt s)(i := debt s i + 1)"
        using hp_debt0[OF h2[unfolded Ok]] by (simp add: debt_steps debt_inc)
      ultimately show ?thesis using r by (simp add: hp_Ok)
    qed
  qed
qed

lemma drop_handle_props:
  "W s \<Longrightarrow> W (drop_handle i s)" "rel0 i s (drop_handle i s)"
proof -
  show "W s \<Longrightarrow> W (drop_handle i s)"
    by (rule W_step[of s]) (auto simp: mono_def drop_handle_def upd_sub_def dest: W_glob)
  show "rel0 i s (drop_handle i s)"
    by (auto simp: rel0_def mono_def frame_def drop_handle_def upd_sub_def)
qed

lemma L1_addNestedSub:
  assumes ih: "L1 n" and w: "W s" and run: "addNestedSub (Suc n) i f s = Some r"
  shows "hp i 0 s r \<and> (\<forall>k s'. r = Ok k s' \<longrightarrow> k < ncleanups s' \<and> owner (cleanups s' k) = i)"
proof -
  from run obtain r1 where a: "trySubscribe n i s = Some r1"
    by (auto simp: addNestedSub_Suc split: option.splits)
  from ih w a have h1: "hp i 1 s r1" unfolding L1_def by blast
  show ?thesis
  proof (cases r1)
    case (Exn e s1)
    with run a have "r = Exn e s1" by (simp add: addNestedSub_Suc)
    with h1 Exn show ?thesis by (simp add: hp_def)
  next
    case (Ok x s1)
    note w1 = hp_W[OF h1, unfolded Ok, simplified]
    note r1 = hp_rel0[OF h1, unfolded Ok, simplified]
    show ?thesis
    proof (cases "listeners (subs s1 i)")
      case None
      with run a Ok have "r = Exn TypeError s1" by (simp add: addNestedSub_Suc)
      with w1 r1 show ?thesis by (simp add: hp_Exn)
    next
      case (Some c)
      with run a Ok have r: "r = Ok (ncleanups s1) (register i c f s1)"
        by (simp add: addNestedSub_Suc)
      have "debt (register i c f s1) = (debt s)(i := debt s i + 0)"
        using hp_debt[OF h1[unfolded Ok]] by (simp add: debt_register)
      with r w1 r1 show ?thesis
        by (simp add: hp_Ok W_register rel0_trans[OF _ rel0_steps(11)] step_fields)
    qed
  qed
qed

lemma L1_tryUnsubscribe:
  assumes ih: "L1 n" and w: "W s" and run: "tryUnsubscribe (Suc n) i s = Some r"
  shows "hp i (- 1) s r"
proof -
  have easy: "hp i (- 1) s (Ok () (dec i s))"
    using w by (simp add: hp_Ok W_steps rel0_steps debt_dec)
  show ?thesis
  proof (cases "unsubscribe (subs s i)")
    case None
    with run have "r = Ok () (dec i s)" by (simp add: tryUnsubscribe_Suc Let_def dec_def)
    with easy show ?thesis by simp
  next
    case (Some h)
    show ?thesis
    proof (cases "subscriptionsAmount (subs s i) = 1")
      case False
      with run Some have "r = Ok () (dec i s)" by (simp add: tryUnsubscribe_Suc Let_def dec_def)
      with easy show ?thesis by simp
    next
      case True
      let ?s1 = "emit (UpstreamUnsubscribed i) (dec i s)"
      have w1: "W ?s1" using w by (simp add: W_steps)
      have r1: "rel0 i s ?s1" by (rule rel0_trans[OF rel0_steps(2) rel0_steps(4)])
      from run Some True obtain r2 where a: "call n h ?s1 = Some r2"
        by (auto simp: tryUnsubscribe_Suc Let_def dec_def split: option.splits)
      have up: "W (st r2) \<and> rel0 i ?s1 (st r2) \<and> subs (st r2) i = subs ?s1 i
                \<and> (\<forall>x s2. r2 = Ok x s2 \<longrightarrow> debt s2 = debt ?s1)"
      proof (cases "parentSub (subs s i)")
        case None
        with W_handle[OF w Some] obtain m where h: "h = StoreUnsubscribe m"
          by (auto simp: handle_ok_def split: func.splits)
        from a h obtain n' where n: "n = Suc n'" by (cases n) auto
        with a h have "r2 = Ok () (store_unsubscribe m ?s1)" by simp
        with w1 show ?thesis by (simp add: W_steps rel0_steps debt_steps step_fields)
      next
        case (Some p)
        note par = this
        with W_handle[OF w \<open>unsubscribe (subs s i) = Some h\<close>] obtain k
          where h: "h = Cleanup k" and k: "k < ncleanups s" "owner (cleanups s k) = p"
          by (auto simp: handle_ok_def split: func.splits)
        have pi: "p < i" using W_parent[OF w par] .
        from ih w1 a h have "hp (owner (cleanups ?s1 k)) 0 ?s1 r2" unfolding L1_def by blast
        then have hp2: "hp p 0 ?s1 r2" using k by (simp add: step_fields)
        have "subs (st r2) i = subs ?s1 i"
          using hp_rel0[OF hp2] pi by (simp add: rel0_def frame_def)
        moreover have "\<forall>x s2. r2 = Ok x s2 \<longrightarrow> debt s2 = debt ?s1"
          using hp2 by (auto dest: hp_debt0)
        ultimately show ?thesis
          using hp_W[OF hp2] rel0_weaken[OF hp_rel0[OF hp2]] pi by simp
      qed
      then have w2: "W (st r2)" and r2s: "rel0 i s (st r2)"
        and same: "subs (st r2) i = subs ?s1 i"
        and d2: "\<forall>x s2. r2 = Ok x s2 \<longrightarrow> debt s2 = debt ?s1"
        using rel0_trans[OF r1] by blast+
      show ?thesis
      proof (cases r2)
        case (Exn e s2)
        with run Some True a have "r = Exn e s2" by (simp add: tryUnsubscribe_Suc Let_def dec_def)
        with w2 r2s Exn show ?thesis by (simp add: hp_Exn)
      next
        case (Ok x s2)
        show ?thesis
        proof (cases "listeners (subs s2 i)")
          case None
          with run Some True a Ok have "r = Exn TypeError (drop_handle i s2)"
            by (simp add: tryUnsubscribe_Suc Let_def dec_def drop_handle_def)
          with w2 r2s Ok show ?thesis
            by (simp add: hp_Exn drop_handle_props rel0_trans[OF _ drop_handle_props(2)])
        next
          case (Some c)
          with run \<open>unsubscribe (subs s i) = Some h\<close> True a Ok have "r = Ok () (disconnect i c s2)"
            by (simp add: tryUnsubscribe_Suc Let_def dec_def)
          moreover have "debt (disconnect i c s2) = (debt s)(i := debt s i + - 1)"
            using d2 Ok by (simp add: debt_steps debt_dec)
          ultimately show ?thesis using w2 r2s Ok
            by (simp add: hp_Ok W_disconnect rel0_trans[OF _ rel0_steps(10)])
        qed
      qed
    qed
  qed
qed

lemma L1_Cleanup:
  assumes ih: "L1 n" and w: "W s" and run: "call (Suc n) (Cleanup k) s = Some r"
  shows "hp (owner (cleanups s k)) 0 s r"
proof (cases "removed (cleanups s k)")
  case True
  with run have "r = Ok () s" by (simp add: call_Cleanup_Suc)
  with w show ?thesis by (simp add: hp_Ok)
next
  case False
  let ?o = "owner (cleanups s k)"
  let ?s2 = "unsubscribe_cl (cleanupListener (cleanups s k)) (flip k s)"
  have k: "k < ncleanups s" using W_glob[OF w, of k] False by (cases "k < ncleanups s") auto
  from run False have a: "tryUnsubscribe n ?o ?s2 = Some r" by (simp add: call_Cleanup_Suc)
  have w2: "W ?s2" using w by (simp add: W_steps W_flip)
  from ih w2 a have h: "hp ?o (- 1) ?s2 r" unfolding L1_def by blast
  have r2: "rel0 ?o s ?s2" by (rule rel0_trans[OF rel0_steps(8) rel0_steps(7)])
  have d2: "debt ?s2 = (debt s)(?o := debt s ?o + 1)"
    using debt_flip(1)[OF False k] by (simp add: debt_steps)
  have "\<forall>x s'. r = Ok x s' \<longrightarrow> debt s' = (debt s)(?o := debt s ?o + 0)"
    using h d2 by (auto simp: hp_def)
  with hp_W[OF h] rel0_trans[OF r2 hp_rel0[OF h]] show ?thesis by (simp add: hp_def)
qed

lemma gpost_same:
  "W s \<Longrightarrow> cleanups s' = cleanups s \<Longrightarrow> ncleanups s' = ncleanups s \<Longrightarrow>
   \<forall>j. parentSub (subs s' j) = parentSub (subs s j)
       \<and> unsubscribe (subs s' j) = unsubscribe (subs s j) \<Longrightarrow>
   st r = s' \<Longrightarrow> gpost s r \<and> W s'"
  using W_same[of s' s] mono_same[of s' s] by (simp add: gpost_def)

lemma gpost_refl: "W s \<Longrightarrow> gpost s (Ok x s) \<and> gpost s (Exn e s)"
  by (simp add: gpost_def)

lemma gpost_comp: "gpost s r1 \<Longrightarrow> gpost (st r1) r \<Longrightarrow> gpost s r"
  by (auto simp: gpost_def intro: mono_trans)

lemma gpost_comp': "gpost s (Ok x s1) \<Longrightarrow> gpost s1 r \<Longrightarrow> gpost s r"
  by (auto simp: gpost_def intro: mono_trans)

lemma gpost_pre: "mono s s1 \<Longrightarrow> gpost s1 r \<Longrightarrow> gpost s r"
  by (auto simp: gpost_def intro: mono_trans)

lemma gpost_W: "gpost s r \<Longrightarrow> W (st r)"
  by (simp add: gpost_def)

lemma gpost_conv: "gpost s (Ok x s') = gpost s (Exn e s')" "gpost s (Ok x s') = gpost s (Ok y s')"
  by (simp_all add: gpost_def)

lemma L1_call:
  assumes ih: "L1 n" and w: "W s" and run: "call (Suc n) f s = Some r"
  shows "gpost s r"
proof (cases f)
  case (Log l)
  with run w show ?thesis using gpost_same[of s "emit (Invoked l) s" r] by (auto simp: emit_def)
next
  case Throw
  with run w show ?thesis by (auto simp: gpost_refl)
next
  case (Seq f1 f2)
  with run obtain r1 where a: "call n f1 s = Some r1" by (auto split: option.splits)
  from ih w a have g1: "gpost s r1" unfolding L1_def by blast
  show ?thesis
  proof (cases r1)
    case (Exn e s1)
    with run Seq a g1 show ?thesis by simp
  next
    case (Ok x s1)
    with run Seq a have b: "call n f2 s1 = Some r" by simp
    from ih gpost_W[OF g1] b Ok have "gpost s1 r" unfolding L1_def by simp
    with g1 Ok show ?thesis by (auto intro: gpost_comp')
  qed
next
  case (CallAddNestedSub i g)
  with run obtain r1 where a: "addNestedSub n i g s = Some r1" by (auto split: option.splits)
  from ih w a have "hp i 0 s r1" unfolding L1_def by blast
  then have "gpost s r1" by (rule hp_gpost)
  with run CallAddNestedSub a show ?thesis
    by (cases r1) (auto simp: gpost_def)
next
  case (SetOnStateChange i h)
  with run w show ?thesis
    using gpost_same[of s "upd_sub i (\<lambda>x. x\<lparr>onStateChange := h\<rparr>) s" r]
    by (auto simp: upd_sub_def)
next
  case (HandleChangeWrapper i)
  let ?s1 = "emit (Changed i) s"
  have g1: "gpost s (Ok () ?s1) \<and> W ?s1" using gpost_same[of s ?s1 "Ok () ?s1"] w by (simp add: emit_def)
  show ?thesis
  proof (cases "onStateChange (subs s i)")
    case None
    with run HandleChangeWrapper g1 show ?thesis by (simp add: Let_def emit_def)
  next
    case (Some h)
    with run HandleChangeWrapper have a: "call n h ?s1 = Some r" by (simp add: Let_def emit_def)
    from ih g1 a have "gpost ?s1 r" unfolding L1_def by blast
    with g1 show ?thesis by (auto intro: gpost_comp')
  qed
next
  case (NotifyNestedSubs i)
  let ?s1 = "emit (Notified i) s"
  have g1: "gpost s (Ok () ?s1) \<and> W ?s1" using gpost_same[of s ?s1 "Ok () ?s1"] w by (simp add: emit_def)
  show ?thesis
  proof (cases "listeners (subs s i)")
    case None
    with run NotifyNestedSubs g1 show ?thesis by (simp add: Let_def emit_def)
  next
    case (Some c)
    with run NotifyNestedSubs have a: "notify_loop n (firstL (cols ?s1 c)) ?s1 = Some r"
      by (simp add: Let_def emit_def batch_def)
    from ih g1 a have "gpost ?s1 r" unfolding L1_def by blast
    with g1 show ?thesis by (auto intro: gpost_comp')
  qed
next
  case (TrySubscribeSelf i)
  let ?s1 = "upd_sub i (\<lambda>x. x\<lparr>selfSubscribed := True\<rparr>) s"
  have g1: "gpost s (Ok () ?s1) \<and> W ?s1" using gpost_same[of s ?s1 "Ok () ?s1"] w by (simp add: upd_sub_def)
  show ?thesis
  proof (cases "selfSubscribed (subs s i)")
    case True
    with run TrySubscribeSelf w show ?thesis by (auto simp: gpost_refl)
  next
    case False
    with run TrySubscribeSelf have a: "trySubscribe n i ?s1 = Some r" by simp
    from ih g1 a have "hp i 1 ?s1 r" unfolding L1_def by blast
    with g1 show ?thesis by (auto intro: gpost_comp' hp_gpost)
  qed
next
  case (TryUnsubscribeSelf i)
  let ?s1 = "upd_sub i (\<lambda>x. x\<lparr>selfSubscribed := False\<rparr>) s"
  have g1: "gpost s (Ok () ?s1) \<and> W ?s1" using gpost_same[of s ?s1 "Ok () ?s1"] w by (simp add: upd_sub_def)
  show ?thesis
  proof (cases "selfSubscribed (subs s i)")
    case False
    with run TryUnsubscribeSelf w show ?thesis by (auto simp: gpost_refl)
  next
    case True
    with run TryUnsubscribeSelf have a: "tryUnsubscribe n i ?s1 = Some r" by simp
    from ih g1 a have "hp i (- 1) ?s1 r" unfolding L1_def by blast
    with g1 show ?thesis by (auto intro: gpost_comp' hp_gpost)
  qed
next
  case (Unsubscribe u)
  with run w show ?thesis
    using gpost_same[of s "unsubscribe_cl u s" r] by (auto simp: unsubscribe_cl_same)
next
  case (Cleanup k)
  with L1_Cleanup[OF ih w] run show ?thesis by (auto intro: hp_gpost)
next
  case (StoreUnsubscribe m)
  with run w show ?thesis
    using gpost_same[of s "store_unsubscribe m s" r] by (auto simp: store_unsubscribe_def)
next
  case (Dispatch v)
  let ?s1 = "s\<lparr>store_state := v\<rparr>"
  have g1: "gpost s (Ok () ?s1) \<and> W ?s1" using gpost_same[of s ?s1 "Ok () ?s1"] w by simp
  from run Dispatch have a: "dispatch_loop n 0 ?s1 = Some r" by simp
  from ih g1 a have "gpost ?s1 r" unfolding L1_def by blast
  with g1 show ?thesis by (auto intro: gpost_comp')
qed

lemma L1_notify_loop:
  assumes ih: "L1 n" and w: "W s" and run: "notify_loop (Suc n) p s = Some r"
  shows "gpost s r"
proof (cases p)
  case None
  with run w show ?thesis by (auto simp: gpost_refl)
next
  case (Some l)
  with run obtain r1 where a: "call n (callback (cells s l)) s = Some r1"
    by (auto split: option.splits)
  from ih w a have g1: "gpost s r1" unfolding L1_def by blast
  show ?thesis
  proof (cases r1)
    case (Exn e s1)
    with run Some a g1 show ?thesis by simp
  next
    case (Ok x s1)
    with run Some a have b: "notify_loop n (nextL (cells s1 l)) s1 = Some r" by simp
    from ih gpost_W[OF g1] b Ok have "gpost s1 r" unfolding L1_def by simp
    with g1 Ok show ?thesis by (auto intro: gpost_comp')
  qed
qed

lemma L1_dispatch_loop:
  assumes ih: "L1 n" and w: "W s" and run: "dispatch_loop (Suc n) k s = Some r"
  shows "gpost s r"
proof (cases "k < nstore s")
  case False
  with run w show ?thesis by (auto simp: gpost_refl)
next
  case True
  note k = this
  show ?thesis
  proof (cases "snd (store_listeners s k)")
    case False
    with run k have "dispatch_loop n (Suc k) s = Some r" by simp
    with ih w show ?thesis unfolding L1_def by blast
  next
    case True
    with run k obtain r1 where a: "call n (fst (store_listeners s k)) s = Some r1"
      by (auto split: option.splits)
    from ih w a have g1: "gpost s r1" unfolding L1_def by blast
    show ?thesis
    proof (cases r1)
      case (Exn e s1)
      with run k True a g1 show ?thesis by simp
    next
      case (Ok x s1)
      with run k True a have b: "dispatch_loop n (Suc k) s1 = Some r" by simp
      from ih gpost_W[OF g1] b Ok have "gpost s1 r" unfolding L1_def by simp
      with g1 Ok show ?thesis by (auto intro: gpost_comp')
    qed
  qed
qed

lemma L1_all: "L1 n"
proof (induction n)
  case 0
  show ?case by (simp add: L1_def)
next
  case (Suc n)
  show ?case
    unfolding L1_def
  proof (intro allI impI conjI)
    fix s f r assume "W s" "call (Suc n) f s = Some r"
    then show "gpost s r" by (rule L1_call[OF Suc])
  next
    fix s f r k assume "W s" "call (Suc n) f s = Some r" "f = Cleanup k"
    then show "hp (owner (cleanups s k)) 0 s r" using L1_Cleanup[OF Suc] by simp
  next
    fix s p r assume "W s" "notify_loop (Suc n) p s = Some r"
    then show "gpost s r" by (rule L1_notify_loop[OF Suc])
  next
    fix s k r assume "W s" "dispatch_loop (Suc n) k s = Some r"
    then show "gpost s r" by (rule L1_dispatch_loop[OF Suc])
  next
    fix s i f r assume "W s" "addNestedSub (Suc n) i f s = Some r"
    then show "hp i 0 s r" using L1_addNestedSub[OF Suc] by blast
  next
    fix s i f r k s' assume "W s" "addNestedSub (Suc n) i f s = Some r" "r = Ok k s'"
    then show "k < ncleanups s'" using L1_addNestedSub[OF Suc] by blast
  next
    fix s i f r k s' assume "W s" "addNestedSub (Suc n) i f s = Some r" "r = Ok k s'"
    then show "owner (cleanups s' k) = i" using L1_addNestedSub[OF Suc] by blast
  next
    fix s i r assume "W s" "trySubscribe (Suc n) i s = Some r"
    then show "hp i 1 s r" by (rule L1_trySubscribe[OF Suc])
  next
    fix s i r assume "W s" "tryUnsubscribe (Suc n) i s = Some r"
    then show "hp i (- 1) s r" by (rule L1_tryUnsubscribe[OF Suc])
  qed
qed

lemma link_ok_eq: "subs s' j = subs s j \<Longrightarrow> link_ok s' j = link_ok s j"
  by (simp add: link_ok_def)

lemma hp_frame: "hp p d s r \<Longrightarrow> p < j \<Longrightarrow> subs (st r) j = subs s j"
  by (simp add: hp_def rel0_def frame_def)

lemma below_ok_transfer:
  "below_ok s i \<Longrightarrow> p \<le> i \<Longrightarrow> \<forall>j<p. subs s1 j = subs s j \<and> debt s1 j = debt s j \<Longrightarrow>
   below_ok s1 p"
  by (simp add: below_ok_def link_ok_def)

lemma L1_hp_addNestedSub: "W s \<Longrightarrow> addNestedSub n i f s = Some r \<Longrightarrow> hp i 0 s r"
  using L1_all[of n] by (simp add: L1_def)

lemma L1_hp_Cleanup: "W s \<Longrightarrow> call n (Cleanup k) s = Some r \<Longrightarrow> hp (owner (cleanups s k)) 0 s r"
  using L1_all[of n] by (simp add: L1_def)

lemma L1_hp_trySubscribe: "W s \<Longrightarrow> trySubscribe n i s = Some r \<Longrightarrow> hp i 1 s r"
  using L1_all[of n] by (simp add: L1_def)

lemma L1_hp_tryUnsubscribe: "W s \<Longrightarrow> tryUnsubscribe n i s = Some r \<Longrightarrow> hp i (- 1) s r"
  using L1_all[of n] by (simp add: L1_def)

lemma L3D_trySubscribe:
  "L3 n \<Longrightarrow> W s \<Longrightarrow> below_ok s i \<Longrightarrow> link_ok s i \<Longrightarrow> trySubscribe n i s = Some r \<Longrightarrow>
   lpost i r \<and> unsubscribe (subs (st r) i) \<noteq> None"
  by (simp add: L3_def)

lemma L3D_addNestedSub:
  "L3 n \<Longrightarrow> W s \<Longrightarrow> below_ok s i \<Longrightarrow> link_ok s i \<Longrightarrow> addNestedSub n i f s = Some r \<Longrightarrow>
   lpost i r"
  by (simp add: L3_def)

lemma L3D_tryUnsubscribe:
  "L3 n \<Longrightarrow> W s \<Longrightarrow> below_ok s i \<Longrightarrow> link_ok s i \<Longrightarrow> 1 \<le> subscriptionsAmount (subs s i) \<Longrightarrow>
   tryUnsubscribe n i s = Some r \<Longrightarrow> lpost i r"
  by (simp add: L3_def)

lemma L3D_Cleanup:
  "L3 n \<Longrightarrow> W s \<Longrightarrow> below_ok s (Suc (owner (cleanups s k))) \<Longrightarrow>
   call n (Cleanup k) s = Some r \<Longrightarrow> lpost (owner (cleanups s k)) r"
  by (simp add: L3_def)

lemma lpostI: "\<forall>j\<le>i. link_ok s' j \<Longrightarrow> lpost i (Ok x s')"
  by (simp add: lpost_def)

lemma link_lower:
  assumes "hp p d s1 r2" and "r2 = Ok x s2" and "\<forall>j\<le>p. link_ok s2 j" and "p < i"
    and "\<forall>j<i. link_ok s1 j"
  shows "\<forall>j<i. link_ok s2 j"
proof (intro allI impI)
  fix j assume j: "j < i"
  show "link_ok s2 j"
  proof (cases "j \<le> p")
    case True
    with assms(3) show ?thesis by simp
  next
    case False
    then have "subs s2 j = subs s1 j" using hp_frame[OF assms(1), of j] assms(2) by simp
    with assms(5) j show ?thesis by (simp add: link_ok_def)
  qed
qed

lemma L3_trySubscribe:
  assumes ih: "L3 n" and w: "W s" and b: "below_ok s i" and l: "link_ok s i"
    and run: "trySubscribe (Suc n) i s = Some r"
  shows "lpost i r \<and> unsubscribe (subs (st r) i) \<noteq> None"
proof (cases "unsubscribe (subs s i) = None")
  case False
  with run have r: "r = Ok () (inc i s)" by (auto simp: trySubscribe_Suc Let_def inc_def)
  have "link_ok (inc i s) i" using l False by (auto simp: link_ok_def nlink_def step_fields)
  moreover have "\<forall>j<i. link_ok (inc i s) j"
    using b by (simp add: below_ok_def link_ok_def step_fields)
  ultimately have "\<forall>j\<le>i. link_ok (inc i s) j" by (auto simp: le_less)
  with r False show ?thesis by (simp add: lpostI step_fields)
next
  case True
  note noh = this
  let ?s1 = "emit (UpstreamSubscribed i) (inc i s)"
  have c0: "subscriptionsAmount (subs s i) = 0" using l noh by (auto simp: link_ok_def nlink_def)
  have w1: "W ?s1" using w by (simp add: W_steps)
  show ?thesis
  proof (cases "parentSub (subs s i)")
    case None
    let ?s3 = "connect i (StoreUnsubscribe (nstore s))
                 (snd (store_subscribe (HandleChangeWrapper i) ?s1))"
    from run noh None have r: "r = Ok () ?s3"
      by (simp add: trySubscribe_Suc Let_def inc_def)
    have "link_ok ?s3 i" using c0 by (simp add: link_ok_def nlink_def step_fields)
    moreover have "\<forall>j<i. link_ok ?s3 j"
      using b by (simp add: below_ok_def link_ok_def step_fields)
    ultimately have "\<forall>j\<le>i. link_ok ?s3 j" by (auto simp: le_less)
    with r show ?thesis by (simp add: lpostI step_fields)
  next
    case (Some p)
    have pi: "p < i" using W_parent[OF w Some] .
    from run noh Some obtain r2 where a: "addNestedSub n p (HandleChangeWrapper i) ?s1 = Some r2"
      by (auto simp: trySubscribe_Suc Let_def inc_def split: option.splits)
    have h2: "hp p 0 ?s1 r2" by (rule L1_hp_addNestedSub[OF w1 a])
    have d1: "debt ?s1 = (debt s)(i := debt s i + 1)" by (simp add: debt_steps debt_inc)
    have b1: "below_ok ?s1 p"
      by (rule below_ok_transfer[OF b]) (use pi d1 in \<open>auto simp: step_fields\<close>)
    have l1: "link_ok ?s1 p" using b pi by (simp add: below_ok_def link_ok_def step_fields)
    have "lpost p r2" by (rule L3D_addNestedSub[OF ih w1 b1 l1 a])
    then obtain k s2 where r2: "r2 = Ok k s2" and lk: "\<forall>j\<le>p. link_ok s2 j"
      by (auto simp: lpost_def)
    have low1: "\<forall>j<i. link_ok ?s1 j" using b by (simp add: below_ok_def link_ok_def step_fields)
    have low2: "\<forall>j<i. link_ok s2 j" by (rule link_lower[OF h2 r2 lk pi low1])
    from run noh Some a r2 have r: "r = Ok () (connect i (Cleanup k) s2)"
      by (simp add: trySubscribe_Suc Let_def inc_def)
    have si: "subs s2 i = subs ?s1 i" using hp_frame[OF h2 pi] r2 by simp
    have "link_ok (connect i (Cleanup k) s2) i"
      using si c0 by (simp add: link_ok_def nlink_def step_fields)
    moreover have "\<forall>j<i. link_ok (connect i (Cleanup k) s2) j"
      using low2 by (simp add: link_ok_def step_fields)
    ultimately have "\<forall>j\<le>i. link_ok (connect i (Cleanup k) s2) j"
      by (auto simp: le_less)
    with r show ?thesis by (simp add: lpostI step_fields)
  qed
qed

lemma L3_addNestedSub:
  assumes ih: "L3 n" and w: "W s" and b: "below_ok s i" and l: "link_ok s i"
    and run: "addNestedSub (Suc n) i f s = Some r"
  shows "lpost i r"
proof -
  from run obtain r1 where a: "trySubscribe n i s = Some r1"
    by (auto simp: addNestedSub_Suc split: option.splits)
  have "lpost i r1 \<and> unsubscribe (subs (st r1) i) \<noteq> None"
    by (rule L3D_trySubscribe[OF ih w b l a])
  then obtain x s1 where r1: "r1 = Ok x s1" and lk: "\<forall>j\<le>i. link_ok s1 j"
    and u: "unsubscribe (subs s1 i) \<noteq> None"
    by (auto simp: lpost_def)
  from lk u obtain c where c: "listeners (subs s1 i) = Some c" by (auto simp: link_ok_def nlink_def)
  with run a r1 have "r = Ok (ncleanups s1) (register i c f s1)" by (simp add: addNestedSub_Suc)
  moreover have "\<forall>j\<le>i. link_ok (register i c f s1) j"
    using lk by (simp add: link_ok_def step_fields)
  ultimately show ?thesis by (simp add: lpostI)
qed

lemma L3_tryUnsubscribe:
  assumes ih: "L3 n" and w: "W s" and b: "below_ok s i" and l: "link_ok s i"
    and c1: "1 \<le> subscriptionsAmount (subs s i)"
    and run: "tryUnsubscribe (Suc n) i s = Some r"
  shows "lpost i r"
proof -
  from l c1 obtain h where h: "unsubscribe (subs s i) = Some h" by (auto simp: link_ok_def nlink_def)
  from l h obtain c where c: "listeners (subs s i) = Some c" by (auto simp: link_ok_def nlink_def)
  show ?thesis
  proof (cases "subscriptionsAmount (subs s i) = 1")
    case False
    with run h have r: "r = Ok () (dec i s)" by (simp add: tryUnsubscribe_Suc Let_def dec_def)
    have "link_ok (dec i s) i" using l c1 False by (auto simp: link_ok_def nlink_def step_fields)
    moreover have "\<forall>j<i. link_ok (dec i s) j"
      using b by (simp add: below_ok_def link_ok_def step_fields)
    ultimately have "\<forall>j\<le>i. link_ok (dec i s) j" by (auto simp: le_less)
    with r show ?thesis by (simp add: lpostI)
  next
    case True
    let ?s1 = "emit (UpstreamUnsubscribed i) (dec i s)"
    have w1: "W ?s1" using w by (simp add: W_steps)
    from run h True obtain r2 where a: "call n h ?s1 = Some r2"
      by (auto simp: tryUnsubscribe_Suc Let_def dec_def split: option.splits)
    have low1: "\<forall>j<i. link_ok ?s1 j" using b by (simp add: below_ok_def link_ok_def step_fields)
    have up: "\<exists>x s2. r2 = Ok x s2 \<and> subs s2 i = subs ?s1 i \<and> (\<forall>j<i. link_ok s2 j)"
    proof (cases "parentSub (subs s i)")
      case None
      with W_handle[OF w h] obtain m where hm: "h = StoreUnsubscribe m"
        by (auto simp: handle_ok_def split: func.splits)
      from a hm obtain n' where n: "n = Suc n'" by (cases n) auto
      with a hm have "r2 = Ok () (store_unsubscribe m ?s1)" by simp
      with low1 show ?thesis by (simp add: step_fields link_ok_def)
    next
      case (Some p)
      with W_handle[OF w h] obtain k
        where hk: "h = Cleanup k" and k: "k < ncleanups s" "owner (cleanups s k) = p"
        by (auto simp: handle_ok_def split: func.splits)
      have pi: "p < i" using W_parent[OF w Some] .
      have o1: "owner (cleanups ?s1 k) = p" using k by (simp add: step_fields)
      have h2: "hp p 0 ?s1 r2"
        using L1_hp_Cleanup[OF w1 a[unfolded hk]] o1 by simp
      have d1: "debt ?s1 = (debt s)(i := debt s i - 1)" by (simp add: debt_steps debt_dec)
      have b1: "below_ok ?s1 (Suc p)"
        by (rule below_ok_transfer[OF b]) (use pi d1 in \<open>auto simp: step_fields\<close>)
      have "lpost p r2"
        using L3D_Cleanup[OF ih w1, of k r2] b1 a hk o1 by simp
      then obtain x s2 where r2: "r2 = Ok x s2" and lk: "\<forall>j\<le>p. link_ok s2 j"
        by (auto simp: lpost_def)
      have "\<forall>j<i. link_ok s2 j" by (rule link_lower[OF h2 r2 lk pi low1])
      moreover have "subs s2 i = subs ?s1 i" using hp_frame[OF h2 pi] r2 by simp
      ultimately show ?thesis using r2 by simp
    qed
    then obtain x s2 where r2: "r2 = Ok x s2" and si: "subs s2 i = subs ?s1 i"
      and low2: "\<forall>j<i. link_ok s2 j" by blast
    have "listeners (subs s2 i) = Some c" using si c by (simp add: step_fields)
    with run h True a r2 have r: "r = Ok () (disconnect i c s2)"
      by (simp add: tryUnsubscribe_Suc Let_def dec_def)
    have "link_ok (disconnect i c s2) i" using si True by (simp add: link_ok_def nlink_def step_fields)
    moreover have "\<forall>j<i. link_ok (disconnect i c s2) j"
      using low2 by (simp add: link_ok_def step_fields)
    ultimately have "\<forall>j\<le>i. link_ok (disconnect i c s2) j" by (auto simp: le_less)
    with r show ?thesis by (simp add: lpostI)
  qed
qed

lemma L3_Cleanup:
  assumes ih: "L3 n" and w: "W s" and b: "below_ok s (Suc (owner (cleanups s k)))"
    and run: "call (Suc n) (Cleanup k) s = Some r"
  shows "lpost (owner (cleanups s k)) r"
proof (cases "removed (cleanups s k)")
  case True
  with run have "r = Ok () s" by (simp add: call_Cleanup_Suc)
  with b show ?thesis by (simp add: lpostI below_ok_def)
next
  case False
  let ?o = "owner (cleanups s k)"
  let ?s2 = "unsubscribe_cl (cleanupListener (cleanups s k)) (flip k s)"
  have k: "k < ncleanups s" using W_glob[OF w, of k] False by (cases "k < ncleanups s") auto
  from run False have a: "tryUnsubscribe n ?o ?s2 = Some r" by (simp add: call_Cleanup_Suc)
  have w2: "W ?s2" using w by (simp add: W_steps W_flip)
  have d2: "debt ?s2 = (debt s)(?o := debt s ?o + 1)"
    using debt_flip(1)[OF False k] by (simp add: debt_steps)
  have b2: "below_ok ?s2 ?o"
    by (rule below_ok_transfer[OF b]) (use d2 in \<open>auto simp: step_fields\<close>)
  have l2: "link_ok ?s2 ?o" using b by (simp add: below_ok_def link_ok_def step_fields)
  have "debt s ?o = 0" using b by (simp add: below_ok_def)
  then have "1 \<le> subscriptionsAmount (subs s ?o)"
    using debt_flip(2)[OF False k] by (simp add: debt_def)
  then have c2: "1 \<le> subscriptionsAmount (subs ?s2 ?o)" by (simp add: step_fields)
  show ?thesis by (rule L3D_tryUnsubscribe[OF ih w2 b2 l2 c2 a])
qed

lemma L3_all: "L3 n"
proof (induction n)
  case 0
  show ?case by (simp add: L3_def)
next
  case (Suc n)
  show ?case
    unfolding L3_def
  proof (intro allI impI conjI; (elim conjE)?)
    fix s i r assume "W s" "below_ok s i" "link_ok s i" "trySubscribe (Suc n) i s = Some r"
    then show "lpost i r" using L3_trySubscribe[OF Suc] by blast
  next
    fix s i r assume "W s" "below_ok s i" "link_ok s i" "trySubscribe (Suc n) i s = Some r"
    then show "unsubscribe (subs (st r) i) \<noteq> None" using L3_trySubscribe[OF Suc] by blast
  next
    fix s i f r assume "W s" "below_ok s i" "link_ok s i" "addNestedSub (Suc n) i f s = Some r"
    then show "lpost i r" by (rule L3_addNestedSub[OF Suc])
  next
    fix s i r assume "W s" "below_ok s i" "link_ok s i" "1 \<le> subscriptionsAmount (subs s i)"
      "tryUnsubscribe (Suc n) i s = Some r"
    then show "lpost i r" by (rule L3_tryUnsubscribe[OF Suc])
  next
    fix s k r assume "W s" "below_ok s (Suc (owner (cleanups s k)))"
      "call (Suc n) (Cleanup k) s = Some r"
    then show "lpost (owner (cleanups s k)) r" by (rule L3_Cleanup[OF Suc])
  qed
qed

lemma term_trySubscribe:
  assumes ih: "\<forall>p<i. T3 p" and w: "W s" and b: "below_ok s i" and l: "link_ok s i"
    and n: "2 * i + 1 \<le> n"
  shows "trySubscribe n i s \<noteq> None"
proof -
  from n obtain n' where n': "n = Suc n'" by (cases n) auto
  show ?thesis
  proof (cases "parentSub (subs s i)")
    case None
    then show ?thesis by (simp add: n' trySubscribe_Suc Let_def)
  next
    case (Some p)
    have pi: "p < i" using W_parent[OF w Some] .
    let ?s1 = "emit (UpstreamSubscribed i) (inc i s)"
    have w1: "W ?s1" using w by (simp add: W_steps)
    have d1: "debt ?s1 = (debt s)(i := debt s i + 1)" by (simp add: debt_steps debt_inc)
    have b1: "below_ok ?s1 p"
      by (rule below_ok_transfer[OF b]) (use pi d1 in \<open>auto simp: step_fields\<close>)
    have l1: "link_ok ?s1 p" using b pi by (simp add: below_ok_def link_ok_def step_fields)
    have "2 * p + 2 \<le> n'" using n n' pi by simp
    with ih pi w1 b1 l1 have "addNestedSub n' p (HandleChangeWrapper i) ?s1 \<noteq> None"
      unfolding T3_def by blast
    then show ?thesis
      by (auto simp: n' trySubscribe_Suc Let_def Some inc_def split: option.splits result.splits)
  qed
qed

lemma term_addNestedSub:
  assumes ih: "\<forall>p<i. T3 p" and w: "W s" and b: "below_ok s i" and l: "link_ok s i"
    and n: "2 * i + 2 \<le> n"
  shows "addNestedSub n i f s \<noteq> None"
proof -
  from n obtain n' where n': "n = Suc n'" by (cases n) auto
  have "trySubscribe n' i s \<noteq> None"
    by (rule term_trySubscribe[OF ih w b l]) (use n n' in simp)
  then show ?thesis
    by (auto simp: n' addNestedSub_Suc split: option.splits result.splits)
qed

lemma term_tryUnsubscribe:
  assumes ih: "\<forall>p<i. T3 p" and w: "W s" and b: "below_ok s i" and l: "link_ok s i"
    and n: "2 * i + 2 \<le> n"
  shows "tryUnsubscribe n i s \<noteq> None"
proof -
  from n obtain n' where n': "n = Suc n'" by (cases n) auto
  show ?thesis
  proof (cases "unsubscribe (subs s i)")
    case None
    then show ?thesis by (simp add: n' tryUnsubscribe_Suc Let_def)
  next
    case (Some h)
    let ?s1 = "emit (UpstreamUnsubscribed i) (dec i s)"
    have w1: "W ?s1" using w by (simp add: W_steps)
    have "call n' h ?s1 \<noteq> None"
    proof (cases "parentSub (subs s i)")
      case None
      with W_handle[OF w Some] obtain m where hm: "h = StoreUnsubscribe m"
        by (auto simp: handle_ok_def split: func.splits)
      from n n' obtain n'' where "n' = Suc n''" by (cases n') auto
      with hm show ?thesis by simp
    next
      case (Some p)
      with W_handle[OF w \<open>unsubscribe (subs s i) = Some h\<close>] obtain k
        where hk: "h = Cleanup k" and k: "k < ncleanups s" "owner (cleanups s k) = p"
        by (auto simp: handle_ok_def split: func.splits)
      have pi: "p < i" using W_parent[OF w Some] .
      have o1: "owner (cleanups ?s1 k) = p" using k by (simp add: step_fields)
      have d1: "debt ?s1 = (debt s)(i := debt s i - 1)" by (simp add: debt_steps debt_dec)
      have b1: "below_ok ?s1 (Suc p)"
        by (rule below_ok_transfer[OF b]) (use pi d1 in \<open>auto simp: step_fields\<close>)
      have "2 * p + 3 \<le> n'" using n n' pi by simp
      with ih pi w1 b1 o1 show ?thesis unfolding T3_def hk by blast
    qed
    then show ?thesis
      by (auto simp: n' tryUnsubscribe_Suc Let_def Some dec_def split: option.splits result.splits)
  qed
qed

lemma term_Cleanup:
  assumes ih: "\<forall>p<i. T3 p" and w: "W s" and o: "owner (cleanups s k) = i"
    and b: "below_ok s (Suc i)" and n: "2 * i + 3 \<le> n"
  shows "call n (Cleanup k) s \<noteq> None"
proof -
  from n obtain n' where n': "n = Suc n'" by (cases n) auto
  show ?thesis
  proof (cases "removed (cleanups s k)")
    case True
    then show ?thesis by (simp add: n' call_Cleanup_Suc)
  next
    case False
    let ?s2 = "unsubscribe_cl (cleanupListener (cleanups s k)) (flip k s)"
    have k: "k < ncleanups s" using W_glob[OF w, of k] False by (cases "k < ncleanups s") auto
    have w2: "W ?s2" using w by (simp add: W_steps W_flip)
    have d2: "debt ?s2 = (debt s)(i := debt s i + 1)"
      using debt_flip(1)[OF False k] o by (simp add: debt_steps)
    have b2: "below_ok ?s2 i"
      by (rule below_ok_transfer[OF b]) (use d2 in \<open>auto simp: step_fields\<close>)
    have l2: "link_ok ?s2 i" using b by (simp add: below_ok_def link_ok_def step_fields)
    have "tryUnsubscribe n' i ?s2 \<noteq> None"
      by (rule term_tryUnsubscribe[OF ih w2 b2 l2]) (use n n' in simp)
    with False o show ?thesis by (simp add: n' call_Cleanup_Suc)
  qed
qed

lemma T3_all: "T3 i"
proof (induction i rule: less_induct)
  case (less i)
  then have ih: "\<forall>p<i. T3 p" by blast
  show ?case
    unfolding T3_def
    using term_addNestedSub[OF ih] term_Cleanup[OF ih]
    by blast
qed

lemma no_type_error_simps [simp]:
  "no_type_error (Ok x s)" "no_type_error (Exn e s) = (e \<noteq> TypeError)"
  by (simp_all add: no_type_error_def)

lemma sub_inv_same:
  "sub_inv s \<Longrightarrow> cleanups s' = cleanups s \<Longrightarrow> ncleanups s' = ncleanups s \<Longrightarrow>
   \<forall>j. parentSub (subs s' j) = parentSub (subs s j)
     \<and> unsubscribe (subs s' j) = unsubscribe (subs s j)
     \<and> listeners (subs s' j) = listeners (subs s j)
     \<and> subscriptionsAmount (subs s' j) = subscriptionsAmount (subs s j)
     \<and> selfSubscribed (subs s' j) = selfSubscribed (subs s j) \<Longrightarrow>
   sub_inv s'"
proof -
  assume a: "sub_inv s" "cleanups s' = cleanups s" "ncleanups s' = ncleanups s"
    "\<forall>j. parentSub (subs s' j) = parentSub (subs s j)
     \<and> unsubscribe (subs s' j) = unsubscribe (subs s j)
     \<and> listeners (subs s' j) = listeners (subs s j)
     \<and> subscriptionsAmount (subs s' j) = subscriptionsAmount (subs s j)
     \<and> selfSubscribed (subs s' j) = selfSubscribed (subs s j)"
  have "nlink (subs s' j) = nlink (subs s j)" for j using a(4) by (simp add: nlink_def)
  moreover have "W s' = W s" using a by (intro W_same) auto
  moreover have "debt s' = debt s" using a by (intro debt_same) auto
  ultimately show ?thesis using a(1) by (simp add: sub_inv_def link_ok_def)
qed

lemma sub_inv_from_hp:
  assumes h: "hp i d s1 (Ok x s')" and low: "\<forall>j\<le>i. link_ok s' j" and l1: "\<forall>j. link_ok s1 j"
    and d: "\<forall>j. ((debt s1)(i := debt s1 i + d)) j = 0"
  shows "sub_inv s'"
proof -
  have w: "W s'" using hp_W[OF h] by simp
  have "debt s' = (debt s1)(i := debt s1 i + d)" using hp_debt[OF h] .
  with d have d': "\<forall>j. debt s' j = 0" by simp
  have "link_ok s' j" for j
  proof (cases "j \<le> i")
    case True
    with low show ?thesis by simp
  next
    case False
    then have "subs s' j = subs s1 j" using hp_frame[OF h, of j] by simp
    with l1 show ?thesis by (simp add: link_ok_def)
  qed
  with w d' show ?thesis by (simp add: sub_inv_def)
qed

lemma sub_inv_below: "sub_inv s \<Longrightarrow> below_ok s i \<and> link_ok s i \<and> W s"
  by (simp add: sub_inv_def below_ok_def)

lemma debt_self:
  "debt (upd_sub i (\<lambda>x. x\<lparr>selfSubscribed := b\<rparr>) s)
     = (debt s)(i := debt s i + (if selfSubscribed (subs s i) then 1 else 0) - (if b then 1 else 0))"
  by (rule ext) (simp add: debt_def reasons_def upd_sub_def)

lemma sub_inv_addNestedSub:
  assumes i: "sub_inv s" and run: "addNestedSub n i f s = Some r"
  shows "\<exists>k s'. r = Ok k s' \<and> sub_inv s'"
proof -
  note p = sub_inv_below[OF i, of i]
  have "lpost i r" using L3D_addNestedSub[OF L3_all] p run by blast
  then obtain k s' where r: "r = Ok k s'" and low: "\<forall>j\<le>i. link_ok s' j" by (auto simp: lpost_def)
  have h: "hp i 0 s (Ok k s')" using L1_hp_addNestedSub[of s n i f r] p run r by simp
  have "sub_inv s'" by (rule sub_inv_from_hp[OF h low]) (use i in \<open>auto simp: sub_inv_def\<close>)
  with r show ?thesis by simp
qed

lemma sub_inv_trySubscribeSelf:
  assumes i: "sub_inv s" and ns: "\<not> selfSubscribed (subs s i)"
    and run: "trySubscribe n i (upd_sub i (\<lambda>x. x\<lparr>selfSubscribed := True\<rparr>) s) = Some r"
  shows "\<exists>s'. r = Ok () s' \<and> sub_inv s'"
proof -
  let ?s1 = "upd_sub i (\<lambda>x. x\<lparr>selfSubscribed := True\<rparr>) s"
  have w1: "W ?s1" using i W_same[of ?s1 s] by (simp add: sub_inv_def upd_sub_def)
  have d1: "debt ?s1 = (debt s)(i := debt s i - 1)" using ns by (simp add: debt_self)
  have l1: "\<forall>j. link_ok ?s1 j" using i by (simp add: sub_inv_def link_ok_def nlink_def upd_sub_def)
  have b1: "below_ok ?s1 i"
    by (rule below_ok_transfer[OF conjunct1[OF sub_inv_below[OF i, of i]]])
       (use d1 in \<open>auto simp: upd_sub_def\<close>)
  have "lpost i r" using L3D_trySubscribe[OF L3_all w1 b1 _ run] l1 by blast
  then obtain s' where r: "r = Ok () s'" and low: "\<forall>j\<le>i. link_ok s' j" by (auto simp: lpost_def)
  have h: "hp i 1 ?s1 (Ok () s')" using L1_hp_trySubscribe[OF w1 run] r by simp
  have "sub_inv s'" by (rule sub_inv_from_hp[OF h low l1]) (use i d1 in \<open>auto simp: sub_inv_def\<close>)
  with r show ?thesis by simp
qed

lemma reasons_self: "selfSubscribed (subs s i) \<Longrightarrow> 1 \<le> reasons s i"
  by (simp add: reasons_def)

lemma sub_inv_tryUnsubscribeSelf:
  assumes i: "sub_inv s" and ns: "selfSubscribed (subs s i)"
    and run: "tryUnsubscribe n i (upd_sub i (\<lambda>x. x\<lparr>selfSubscribed := False\<rparr>) s) = Some r"
  shows "\<exists>s'. r = Ok () s' \<and> sub_inv s'"
proof -
  let ?s1 = "upd_sub i (\<lambda>x. x\<lparr>selfSubscribed := False\<rparr>) s"
  have w1: "W ?s1" using i W_same[of ?s1 s] by (simp add: sub_inv_def upd_sub_def)
  have d1: "debt ?s1 = (debt s)(i := debt s i + 1)" using ns by (simp add: debt_self)
  have l1: "\<forall>j. link_ok ?s1 j" using i by (simp add: sub_inv_def link_ok_def nlink_def upd_sub_def)
  have b1: "below_ok ?s1 i"
    by (rule below_ok_transfer[OF conjunct1[OF sub_inv_below[OF i, of i]]])
       (use d1 in \<open>auto simp: upd_sub_def\<close>)
  have "debt s i = 0" using i by (simp add: sub_inv_def)
  then have "1 \<le> subscriptionsAmount (subs s i)" using reasons_self[OF ns] by (simp add: debt_def)
  then have c1: "1 \<le> subscriptionsAmount (subs ?s1 i)" by (simp add: upd_sub_def)
  have "lpost i r" using L3D_tryUnsubscribe[OF L3_all w1 b1 _ c1 run] l1 by blast
  then obtain s' where r: "r = Ok () s'" and low: "\<forall>j\<le>i. link_ok s' j" by (auto simp: lpost_def)
  have h: "hp i (- 1) ?s1 (Ok () s')" using L1_hp_tryUnsubscribe[OF w1 run] r by simp
  have "sub_inv s'" by (rule sub_inv_from_hp[OF h low l1]) (use i d1 in \<open>auto simp: sub_inv_def\<close>)
  with r show ?thesis by simp
qed

lemma sub_inv_Cleanup:
  assumes i: "sub_inv s" and run: "call n (Cleanup k) s = Some r"
  shows "\<exists>s'. r = Ok () s' \<and> sub_inv s'"
proof -
  let ?o = "owner (cleanups s k)"
  note p = sub_inv_below[OF i, of "Suc ?o"]
  have "lpost ?o r" using L3D_Cleanup[OF L3_all] p run by blast
  then obtain s' where r: "r = Ok () s'" and low: "\<forall>j\<le>?o. link_ok s' j" by (auto simp: lpost_def)
  have h: "hp ?o 0 s (Ok () s')" using L1_hp_Cleanup[of s n k r] p run r by simp
  have "sub_inv s'" by (rule sub_inv_from_hp[OF h low]) (use i in \<open>auto simp: sub_inv_def\<close>)
  with r show ?thesis by simp
qed

lemma L4D:
  "L4 n \<Longrightarrow> sub_inv s \<Longrightarrow> call n f s = Some r \<Longrightarrow> sub_inv (st r) \<and> no_type_error r"
  "L4 n \<Longrightarrow> sub_inv s \<Longrightarrow> notify_loop n p s = Some r \<Longrightarrow> sub_inv (st r) \<and> no_type_error r"
  "L4 n \<Longrightarrow> sub_inv s \<Longrightarrow> dispatch_loop n k s = Some r \<Longrightarrow> sub_inv (st r) \<and> no_type_error r"
  by (simp_all add: L4_def)

lemma L4_call:
  assumes ih: "L4 n" and i: "sub_inv s" and run: "call (Suc n) f s = Some r"
  shows "sub_inv (st r) \<and> no_type_error r"
proof (cases f)
  case (Log l)
  with run i show ?thesis using sub_inv_same[of s "emit (Invoked l) s"] by (auto simp: emit_def)
next
  case Throw
  with run i show ?thesis by auto
next
  case (Seq f1 f2)
  with run obtain r1 where a: "call n f1 s = Some r1" by (auto split: option.splits)
  note g1 = L4D(1)[OF ih i a]
  show ?thesis
  proof (cases r1)
    case (Exn e s1)
    with run Seq a g1 show ?thesis by simp
  next
    case (Ok x s1)
    with run Seq a have b: "call n f2 s1 = Some r" by simp
    from g1 Ok have "sub_inv s1" by simp
    from L4D(1)[OF ih this b] show ?thesis .
  qed
next
  case (CallAddNestedSub j g)
  with run obtain r1 where a: "addNestedSub n j g s = Some r1" by (auto split: option.splits)
  from sub_inv_addNestedSub[OF i a] run CallAddNestedSub a show ?thesis by auto
next
  case (SetOnStateChange j h)
  with run i show ?thesis
    using sub_inv_same[of s "upd_sub j (\<lambda>x. x\<lparr>onStateChange := h\<rparr>) s"]
    by (auto simp: upd_sub_def)
next
  case (HandleChangeWrapper j)
  let ?s1 = "emit (Changed j) s"
  have g1: "sub_inv ?s1" using sub_inv_same[of s ?s1] i by (simp add: emit_def)
  show ?thesis
  proof (cases "onStateChange (subs s j)")
    case None
    with run HandleChangeWrapper g1 show ?thesis by (auto simp: Let_def emit_def)
  next
    case (Some h)
    with run HandleChangeWrapper have a: "call n h ?s1 = Some r" by (simp add: Let_def emit_def)
    from L4D(1)[OF ih g1 a] show ?thesis .
  qed
next
  case (NotifyNestedSubs j)
  let ?s1 = "emit (Notified j) s"
  have g1: "sub_inv ?s1" using sub_inv_same[of s ?s1] i by (simp add: emit_def)
  show ?thesis
  proof (cases "listeners (subs s j)")
    case None
    with run NotifyNestedSubs g1 show ?thesis by (auto simp: Let_def emit_def)
  next
    case (Some c)
    with run NotifyNestedSubs have a: "notify_loop n (firstL (cols ?s1 c)) ?s1 = Some r"
      by (simp add: Let_def emit_def batch_def)
    from L4D(2)[OF ih g1 a] show ?thesis .
  qed
next
  case (TrySubscribeSelf j)
  show ?thesis
  proof (cases "selfSubscribed (subs s j)")
    case True
    with run TrySubscribeSelf i show ?thesis by auto
  next
    case False
    with run TrySubscribeSelf
    have a: "trySubscribe n j (upd_sub j (\<lambda>x. x\<lparr>selfSubscribed := True\<rparr>) s) = Some r" by simp
    from sub_inv_trySubscribeSelf[OF i False a] show ?thesis by auto
  qed
next
  case (TryUnsubscribeSelf j)
  show ?thesis
  proof (cases "selfSubscribed (subs s j)")
    case False
    with run TryUnsubscribeSelf i show ?thesis by auto
  next
    case True
    with run TryUnsubscribeSelf
    have a: "tryUnsubscribe n j (upd_sub j (\<lambda>x. x\<lparr>selfSubscribed := False\<rparr>) s) = Some r" by simp
    from sub_inv_tryUnsubscribeSelf[OF i True a] show ?thesis by auto
  qed
next
  case (Unsubscribe u)
  with run i show ?thesis
    using sub_inv_same[of s "unsubscribe_cl u s"] by (auto simp: unsubscribe_cl_same)
next
  case (Cleanup k)
  from sub_inv_Cleanup[OF i run[unfolded Cleanup]] show ?thesis by auto
next
  case (StoreUnsubscribe m)
  with run i show ?thesis
    using sub_inv_same[of s "store_unsubscribe m s"] by (auto simp: store_unsubscribe_def)
next
  case (Dispatch v)
  let ?s1 = "s\<lparr>store_state := v\<rparr>"
  have g1: "sub_inv ?s1" using sub_inv_same[of s ?s1] i by simp
  from run Dispatch have a: "dispatch_loop n 0 ?s1 = Some r" by simp
  from L4D(3)[OF ih g1 a] show ?thesis .
qed

lemma L4_notify_loop:
  assumes ih: "L4 n" and i: "sub_inv s" and run: "notify_loop (Suc n) p s = Some r"
  shows "sub_inv (st r) \<and> no_type_error r"
proof (cases p)
  case None
  with run i show ?thesis by auto
next
  case (Some l)
  with run obtain r1 where a: "call n (callback (cells s l)) s = Some r1"
    by (auto split: option.splits)
  note g1 = L4D(1)[OF ih i a]
  show ?thesis
  proof (cases r1)
    case (Exn e s1)
    with run Some a g1 show ?thesis by simp
  next
    case (Ok x s1)
    with run Some a have b: "notify_loop n (nextL (cells s1 l)) s1 = Some r" by simp
    from g1 Ok have "sub_inv s1" by simp
    from L4D(2)[OF ih this b] show ?thesis .
  qed
qed

lemma L4_dispatch_loop:
  assumes ih: "L4 n" and i: "sub_inv s" and run: "dispatch_loop (Suc n) k s = Some r"
  shows "sub_inv (st r) \<and> no_type_error r"
proof (cases "k < nstore s")
  case False
  with run i show ?thesis by auto
next
  case True
  note k = this
  show ?thesis
  proof (cases "snd (store_listeners s k)")
    case False
    with run k have "dispatch_loop n (Suc k) s = Some r" by simp
    from L4D(3)[OF ih i this] show ?thesis .
  next
    case True
    with run k obtain r1 where a: "call n (fst (store_listeners s k)) s = Some r1"
      by (auto split: option.splits)
    note g1 = L4D(1)[OF ih i a]
    show ?thesis
    proof (cases r1)
      case (Exn e s1)
      with run k True a g1 show ?thesis by simp
    next
      case (Ok x s1)
      with run k True a have b: "dispatch_loop n (Suc k) s1 = Some r" by simp
      from g1 Ok have "sub_inv s1" by simp
      from L4D(3)[OF ih this b] show ?thesis .
    qed
  qed
qed

lemma L4_all: "L4 n"
proof (induction n)
  case 0
  show ?case by (simp add: L4_def)
next
  case (Suc n)
  show ?case
    unfolding L4_def
    using L4_call[OF Suc] L4_notify_loop[OF Suc] L4_dispatch_loop[OF Suc]
    by blast
qed

lemma sub_inv_init: "wf_parents par \<Longrightarrow> sub_inv (init par)"
  by (auto simp: sub_inv_def W_def parent_ok_def handles_ok_def glob_def link_ok_def nlink_def
        debt_def reasons_def init_def createSubscription_def wf_parents_def)

text \<open>The equations that evaluate a run on a concrete world.\<close>

lemmas run_simps = eval_nat_numeral init_def chain_def createSubscription_def
  trySubscribe_Suc addNestedSub_Suc tryUnsubscribe_Suc call_Cleanup_Suc Let_def batch_def
  connect_def disconnect_def register_def flip_def upd_sub_def upd_col_def upd_cell_def emit_def
  clear_def store_subscribe_def store_unsubscribe_def createListenerCollection_def subscribe_def
  unsubscribe_cl_def st_def getState_def isSubscribed_def

section \<open>A notification pass over a collection built by \<open>subscribe\<close> calls\<close>

lemma seg_emit [simp]: "cells (emit e s) = cells s" "cols (emit e s) = cols s"
  by (simp_all add: emit_def)

lemma upt_split: "t < n \<Longrightarrow> [0..<n] = [0..<t] @ t # [Suc t..<n]"
proof -
  assume t: "t < n"
  from t obtain d where "n = t + d" using less_imp_add_positive by blast
  then have "[0..<n] = [0..<t] @ [t..<n]" using upt_add_eq_append[of 0 t d] by simp
  also have "[t..<n] = t # [Suc t..<n]" using t by (rule upt_conv_Cons)
  finally show ?thesis .
qed

lemma calls_reg_run: "calls (reg_run c ops s) = calls s"
proof (induction ops arbitrary: s)
  case Nil
  then show ?case by simp
next
  case (Cons op ops)
  then show ?case by (cases op) (simp_all add: subscribe_fields unsubscribe_cl_same)
qed

lemma wf_ops_subs: "wf_ops m (map Sub cbs)"
  by (induction cbs arbitrary: m) auto

lemma sub_cbs_subs: "sub_cbs (map Sub cbs) = cbs"
  by (induction cbs) auto

lemma built_seg:
  "seg (cells (reg_run 0 (map Sub cbs) fresh_registry)) None
       (firstL (cols (reg_run 0 (map Sub cbs) fresh_registry) 0)) [0..<length cbs] None
       (lastL (cols (reg_run 0 (map Sub cbs) fresh_registry) 0))
   \<and> (\<forall>k<length cbs. callback (cells (reg_run 0 (map Sub cbs) fresh_registry) k) = cbs ! k)
   \<and> reg (reg_run 0 (map Sub cbs) fresh_registry) 0 [0..<length cbs]
   \<and> (\<forall>k<length cbs. lis (reg_run 0 (map Sub cbs) fresh_registry) k = k)"
proof -
  let ?s = "reg_run 0 (map Sub cbs) fresh_registry"
  have f: "[k \<leftarrow> [0..<length cbs]. Unsub k \<notin> Sub ` set cbs] = [0..<length cbs]"
    by (rule filter_True) auto
  have inv: "reg ?s 0 [0..<length cbs] \<and> (\<forall>u. u_isSubscribed (unsubs ?s u) \<longrightarrow> lis ?s u = u)
     \<and> (\<forall>k<length cbs. callback (cells ?s k) = cbs ! k)"
    using reg_run_inv[OF reg_fresh fresh_counts _ wf_ops_subs[of 0 cbs], of "[]"]
    by (simp add: sub_cbs_subs f)
  then have l: "\<forall>k<length cbs. lis ?s k = k" unfolding reg_def by auto
  then have "map (lis ?s) [0..<length cbs] = [0..<length cbs]" by (intro map_idI) simp
  with inv l show ?thesis by (simp add: reg_def)
qed

lemma quiet_call:
  "quiet f \<Longrightarrow> depth f \<le> n \<Longrightarrow> call n f s = Some (Ok () (s\<lparr>calls := calls s @ said f\<rparr>))"
proof (induction f arbitrary: n s)
  case (Log l)
  then obtain m where "n = Suc m" by (cases n) auto
  then show ?case by (simp add: emit_def)
next
  case (Seq f g)
  then obtain m where m: "n = Suc m" by (cases n) auto
  with Seq.prems have "depth f \<le> m" "depth g \<le> m" "quiet f" "quiet g" by simp_all
  then show ?case using Seq.IH by (simp add: m)
qed simp_all

lemma notify_loop_quiet:
  assumes "seg (cells s) pv p xs q lst"
    and "map (\<lambda>x. callback (cells s x)) xs = fs"
    and "\<forall>f\<in>set fs. quiet f \<and> depth f + length fs < m"
    and "length xs < m"
  shows "notify_loop m p s
         = notify_loop (m - length xs) q (s\<lparr>calls := calls s @ concat (map said fs)\<rparr>)"
  using assms
proof (induction xs arbitrary: s pv p m fs)
  case Nil
  then show ?case by simp
next
  case (Cons x xs)
  from Cons.prems(2) obtain f fs' where fs: "fs = f # fs'" and cb: "callback (cells s x) = f"
    and rest: "map (\<lambda>x. callback (cells s x)) xs = fs'"
    by (cases fs) auto
  from Cons.prems(4) obtain m' where m: "m = Suc m'" and m': "length xs < m'"
    by (cases m) auto
  from Cons.prems(3) fs m have q: "quiet f" and d: "depth f \<le> m'"
    and q': "\<forall>g\<in>set fs'. quiet g \<and> depth g + length fs' < m'"
    by auto
  let ?s1 = "s\<lparr>calls := calls s @ said f\<rparr>"
  from Cons.prems(1) have p: "p = Some x"
    and sg: "seg (cells ?s1) (Some x) (nextL (cells s x)) xs q lst"
    by simp_all
  have rest': "map (\<lambda>x. callback (cells ?s1 x)) xs = fs'" using rest by simp
  have "notify_loop m p s = notify_loop m' (nextL (cells s x)) ?s1"
    by (simp add: m p cb quiet_call[OF q d])
  also have "\<dots> = notify_loop (m' - length xs) q
        (?s1\<lparr>calls := calls ?s1 @ concat (map said fs')\<rparr>)"
    by (rule Cons.IH[OF sg rest' q' m'])
  finally show ?case by (simp add: m fs)
qed

lemma pass_after_throw:
  "pass_after n k p s = Some (Some l, s') \<Longrightarrow>
   call (n - Suc k) (callback (cells s' l)) s' = Some (Exn e s'') \<Longrightarrow>
   notify_loop n p s = Some (Exn e s'')"
proof (induction k arbitrary: n p s)
  case 0
  then obtain m where "n = Suc m" by (cases n) auto
  with 0 show ?case by simp
next
  case (Suc k)
  from Suc.prems(1) obtain m where m: "n = Suc m" by (cases n) auto
  from Suc.prems(1) m obtain l0 where p: "p = Some l0" by (cases p) auto
  from Suc.prems(1) m p obtain s1 where
    c: "call m (callback (cells s l0)) s = Some (Ok () s1)"
    and r: "pass_after m k (nextL (cells s1 l0)) s1 = Some (Some l, s')"
    by (auto split: option.splits result.splits)
  from Suc.prems(2) m have "call (m - Suc k) (callback (cells s' l)) s' = Some (Exn e s'')" by simp
  from Suc.IH[OF r this] c show ?case by (simp add: m p)
qed

lemma throw_pass_after:
  "notify_loop n p s = Some (Exn e s'') \<Longrightarrow>
   \<exists>k l s'. pass_after n k p s = Some (Some l, s')
      \<and> call (n - Suc k) (callback (cells s' l)) s' = Some (Exn e s'')"
proof (induction n arbitrary: p s)
  case 0
  then show ?case by simp
next
  case (Suc n)
  from Suc.prems obtain l0 where p: "p = Some l0" by (cases p) auto
  show ?case
  proof (cases "call n (callback (cells s l0)) s")
    case None
    with Suc.prems p show ?thesis by simp
  next
    case (Some r)
    show ?thesis
    proof (cases r)
      case (Exn e1 s1)
      with Some Suc.prems p have "call (Suc n - Suc 0) (callback (cells s l0)) s = Some (Exn e s'')"
        by simp
      moreover have "pass_after (Suc n) 0 p s = Some (Some l0, s)" by (simp add: p)
      ultimately show ?thesis by blast
    next
      case (Ok x s1)
      with Some Suc.prems p have "notify_loop n (nextL (cells s1 l0)) s1 = Some (Exn e s'')"
        by simp
      from Suc.IH[OF this] obtain k l s' where
        a: "pass_after n k (nextL (cells s1 l0)) s1 = Some (Some l, s')"
        and b: "call (n - Suc k) (callback (cells s' l)) s' = Some (Exn e s'')"
        by blast
      have "pass_after (Suc n) (Suc k) p s = Some (Some l, s')" using a Some Ok by (simp add: p)
      moreover have "call (Suc n - Suc (Suc k)) (callback (cells s' l)) s' = Some (Exn e s'')"
        using b by simp
      ultimately show ?thesis by blast
    qed
  qed
qed

lemma calls_fresh_registry: "calls fresh_registry = []"
  by (simp add: fresh_registry_def createListenerCollection_def init_def)

lemma quiet_then_throw:
  assumes q: "\<forall>f\<in>set fs. quiet f \<and> depth f + length fs < n" and n: "length fs + 2 \<le> n"
  shows "notify n 0 (reg_run 0 (map Sub (fs @ Throw # zs)) fresh_registry)
          = Some (Exn Thrown
               ((reg_run 0 (map Sub (fs @ Throw # zs)) fresh_registry)
                  \<lparr>calls := concat (map said fs)\<rparr>))"
proof -
  define cbs where "cbs = fs @ Throw # zs"
  define s where "s = reg_run 0 (map Sub cbs) fresh_registry"
  define t where "t = length fs"
  note b = built_seg[of cbs, folded s_def]
  have tl: "t < length cbs" by (simp add: t_def cbs_def)
  have split: "[0..<length cbs] = [0..<t] @ t # [Suc t..<length cbs]"
    using tl by (rule upt_split)
  from b have "seg (cells s) None (firstL (cols s 0)) ([0..<t] @ t # [Suc t..<length cbs]) None
                 (lastL (cols s 0))"
    using split by simp
  then obtain lp where sg: "seg (cells s) None (firstL (cols s 0)) [0..<t] (Some t) lp"
    by (auto simp: seg_append)
  have cbs: "map (\<lambda>x. callback (cells s x)) [0..<t] = fs"
    using b tl by (auto simp: nth_append cbs_def t_def intro!: nth_equalityI)
  have thr: "callback (cells s t) = Throw" using b tl by (simp add: nth_append cbs_def t_def)
  have c0: "calls s = []" by (simp add: s_def calls_reg_run calls_fresh_registry)
  have m: "length [0..<t] < n" using n by (simp add: t_def)
  from n obtain n2 where n2: "n - t = Suc (Suc n2)"
    by (cases "n - t"; cases "n - t - 1") (auto simp: t_def)
  have "notify n 0 s = notify_loop n (firstL (cols s 0)) s" by (simp add: notify_def batch_def)
  also have "\<dots> = notify_loop (n - t) (Some t) (s\<lparr>calls := calls s @ concat (map said fs)\<rparr>)"
    using notify_loop_quiet[OF sg cbs q m] by simp
  also have "\<dots> = Some (Exn Thrown (s\<lparr>calls := concat (map said fs)\<rparr>))"
    using thr by (simp add: n2 c0)
  finally show ?thesis unfolding s_def cbs_def .
qed

section \<open>Connecting and disconnecting on the edges of the counter\<close>

lemma upstream_calls_append [simp]:
  "upstream_calls i (es @ es') = upstream_calls i es @ upstream_calls i es'"
  by (simp add: upstream_calls_def)

lemma upstream_calls_lower: "up_events p es \<Longrightarrow> p < i \<Longrightarrow> upstream_calls i es = []"
  by (auto simp: upstream_calls_def up_events_def filter_empty_conv)

lemma hp_calls:
  "hp p d s r \<Longrightarrow> p < i \<Longrightarrow> upstream_calls i (calls (st r)) = upstream_calls i (calls s)"
  by (auto simp: hp_def rel0_def upstream_calls_lower)

lemma hp_store: "hp p d s r \<Longrightarrow> store_state (st r) = store_state s"
  by (simp add: hp_def rel0_def)

lemma ready_after:
  assumes h: "hp i d s (Ok x s')" and low: "\<forall>j\<le>i. link_ok s' j" and r: "ready s i"
  shows "ready s' i"
proof -
  have "debt s' = (debt s)(i := debt s i + d)" using hp_debt[OF h] .
  then have "\<forall>j<i. debt s' j = 0" using r by (simp add: ready_def below_ok_def)
  with low hp_W[OF h] show ?thesis by (simp add: ready_def below_ok_def)
qed

lemma get_empty: "firstL (cols s c) = None \<Longrightarrow> get c s = Some []"
  by (simp add: get_def get_loop.simps)

lemma try_keep:
  assumes "link_ok s i" and "1 \<le> subscriptionsAmount (subs s i)"
  shows "trySubscribe (Suc n) i s
         = Some (Ok () (upd_sub i (\<lambda>x. x\<lparr>subscriptionsAmount := subscriptionsAmount x + 1\<rparr>) s))"
  using assms by (auto simp: trySubscribe_Suc Let_def link_ok_def nlink_def)

lemma un_keep:
  assumes "link_ok s i" and "1 < subscriptionsAmount (subs s i)"
  shows "tryUnsubscribe (Suc n) i s
         = Some (Ok () (upd_sub i (\<lambda>x. x\<lparr>subscriptionsAmount := subscriptionsAmount x - 1\<rparr>) s))"
  using assms by (auto simp: tryUnsubscribe_Suc Let_def link_ok_def nlink_def split: option.splits)

lemma try_connect:
  assumes r: "ready s i" and c0: "subscriptionsAmount (subs s i) = 0" and n: "2 * i + 1 \<le> n"
  shows "\<exists>s' c. trySubscribe n i s = Some (Ok () s')
     \<and> upstream_calls i (calls s') = upstream_calls i (calls s) @ [UpstreamSubscribed i]
     \<and> unsubscribe (subs s i) = None \<and> listeners (subs s i) = None
     \<and> unsubscribe (subs s' i) \<noteq> None
     \<and> listeners (subs s' i) = Some c \<and> cols s' c = \<lparr>firstL = None, lastL = None\<rparr>
     \<and> subscriptionsAmount (subs s' i) = 1 \<and> ready s' i
     \<and> selfSubscribed (subs s' i) = selfSubscribed (subs s i)
     \<and> onStateChange (subs s' i) = onStateChange (subs s i)
     \<and> store_state s' = store_state s"
proof -
  from r have w: "W s" and b: "below_ok s i" and l: "link_ok s i" by (simp_all add: ready_def)
  from l c0 have noh: "unsubscribe (subs s i) = None" and nol: "listeners (subs s i) = None"
    by (auto simp: link_ok_def nlink_def)
  have "trySubscribe n i s \<noteq> None" using term_trySubscribe[OF _ w b l n] T3_all by blast
  then obtain r1 where run: "trySubscribe n i s = Some r1" by blast
  from n obtain n' where n': "n = Suc n'" by (cases n) auto
  have "lpost i r1" using L3D_trySubscribe[OF L3_all w b l run] by simp
  then obtain s' where r1: "r1 = Ok () s'" and low: "\<forall>j\<le>i. link_ok s' j"
    by (auto simp: lpost_def)
  have h: "hp i 1 s (Ok () s')" using L1_hp_trySubscribe[OF w run] r1 by simp
  have rd: "ready s' i" by (rule ready_after[OF h low r])
  let ?s1 = "emit (UpstreamSubscribed i) (inc i s)"
  have fin: "upstream_calls i (calls s') = upstream_calls i (calls s) @ [UpstreamSubscribed i]
     \<and> unsubscribe (subs s' i) \<noteq> None
     \<and> (\<exists>c. listeners (subs s' i) = Some c \<and> cols s' c = \<lparr>firstL = None, lastL = None\<rparr>)
     \<and> subscriptionsAmount (subs s' i) = 1
     \<and> selfSubscribed (subs s' i) = selfSubscribed (subs s i)
     \<and> onStateChange (subs s' i) = onStateChange (subs s i)"
  proof (cases "parentSub (subs s i)")
    case None
    with run r1 noh have "s' = connect i (StoreUnsubscribe (nstore s))
                 (snd (store_subscribe (HandleChangeWrapper i) ?s1))"
      by (simp add: n' trySubscribe_Suc Let_def inc_def)
    then show ?thesis using c0 by (simp add: step_fields upstream_calls_def)
  next
    case (Some p)
    have pi: "p < i" using W_parent[OF w Some] .
    from run r1 noh Some obtain k s2
      where a: "addNestedSub n' p (HandleChangeWrapper i) ?s1 = Some (Ok k s2)"
        and s': "s' = connect i (Cleanup k) s2"
      by (auto simp: n' trySubscribe_Suc Let_def inc_def split: option.splits result.splits)
    have w1: "W ?s1" using w by (simp add: W_steps)
    have h2: "hp p 0 ?s1 (Ok k s2)" by (rule L1_hp_addNestedSub[OF w1 a])
    have si: "subs s2 i = subs ?s1 i" using hp_frame[OF h2 pi] by simp
    have "upstream_calls i (calls s2) = upstream_calls i (calls ?s1)"
      using hp_calls[OF h2 pi] by simp
    then show ?thesis using s' si c0 by (simp add: step_fields upstream_calls_def)
  qed
  with run r1 noh nol rd hp_store[OF h] show ?thesis by auto
qed

lemma un_disconnect:
  assumes r: "ready s i" and c1: "subscriptionsAmount (subs s i) = 1" and n: "2 * i + 2 \<le> n"
  shows "\<exists>s' c. tryUnsubscribe n i s = Some (Ok () s')
     \<and> upstream_calls i (calls s') = upstream_calls i (calls s) @ [UpstreamUnsubscribed i]
     \<and> unsubscribe (subs s i) \<noteq> None \<and> listeners (subs s i) = Some c
     \<and> unsubscribe (subs s' i) = None \<and> listeners (subs s' i) = None
     \<and> cols s' c = \<lparr>firstL = None, lastL = None\<rparr>
     \<and> subscriptionsAmount (subs s' i) = 0 \<and> ready s' i
     \<and> selfSubscribed (subs s' i) = selfSubscribed (subs s i)"
proof -
  from r have w: "W s" and b: "below_ok s i" and l: "link_ok s i" by (simp_all add: ready_def)
  from l c1 obtain h c where hh: "unsubscribe (subs s i) = Some h"
    and cc: "listeners (subs s i) = Some c"
    by (auto simp: link_ok_def nlink_def)
  have "tryUnsubscribe n i s \<noteq> None" using term_tryUnsubscribe[OF _ w b l n] T3_all by blast
  then obtain r1 where run: "tryUnsubscribe n i s = Some r1" by blast
  from n obtain n' where n': "n = Suc n'" by (cases n) auto
  have "lpost i r1" using L3D_tryUnsubscribe[OF L3_all w b l _ run] c1 by simp
  then obtain s' where r1: "r1 = Ok () s'" and low: "\<forall>j\<le>i. link_ok s' j"
    by (auto simp: lpost_def)
  have hp1: "hp i (- 1) s (Ok () s')" using L1_hp_tryUnsubscribe[OF w run] r1 by simp
  have rd: "ready s' i" by (rule ready_after[OF hp1 low r])
  let ?s1 = "emit (UpstreamUnsubscribed i) (dec i s)"
  have w1: "W ?s1" using w by (simp add: W_steps)
  from run r1 hh c1 obtain x s2 where a: "call n' h ?s1 = Some (Ok x s2)"
    by (auto simp: n' tryUnsubscribe_Suc Let_def dec_def split: option.splits result.splits)
  have up: "subs s2 i = subs ?s1 i \<and> upstream_calls i (calls s2) = upstream_calls i (calls ?s1)"
  proof (cases "parentSub (subs s i)")
    case None
    with W_handle[OF w hh] obtain m where hm: "h = StoreUnsubscribe m"
      by (auto simp: handle_ok_def split: func.splits)
    from a hm obtain n'' where "n' = Suc n''" by (cases n') auto
    with a hm have "s2 = store_unsubscribe m ?s1" by simp
    then show ?thesis by (simp add: step_fields)
  next
    case (Some p)
    with W_handle[OF w hh] obtain k
      where hk: "h = Cleanup k" and k: "k < ncleanups s" "owner (cleanups s k) = p"
      by (auto simp: handle_ok_def split: func.splits)
    have pi: "p < i" using W_parent[OF w Some] .
    have o1: "owner (cleanups ?s1 k) = p" using k by (simp add: step_fields)
    have h2: "hp p 0 ?s1 (Ok x s2)" using L1_hp_Cleanup[OF w1 a[unfolded hk]] o1 by simp
    show ?thesis using hp_frame[OF h2 pi] hp_calls[OF h2 pi] by simp
  qed
  then have "listeners (subs s2 i) = Some c" using cc by (simp add: step_fields)
  with run r1 hh c1 a have "s' = disconnect i c s2"
    by (simp add: n' tryUnsubscribe_Suc Let_def dec_def)
  with up c1 have "upstream_calls i (calls s') = upstream_calls i (calls s) @ [UpstreamUnsubscribed i]
     \<and> unsubscribe (subs s' i) = None \<and> listeners (subs s' i) = None
     \<and> cols s' c = \<lparr>firstL = None, lastL = None\<rparr> \<and> subscriptionsAmount (subs s' i) = 0
     \<and> selfSubscribed (subs s' i) = selfSubscribed (subs s i)"
    by (simp add: step_fields upstream_calls_def)
  with run r1 hh cc rd show ?thesis by auto
qed

lemma reachable_inv:
  assumes "wf_parents par" and "call m prog (init par) = Some r"
  shows "sub_inv (st r)"
  using L4D(1)[OF L4_all sub_inv_init[OF assms(1)] assms(2)] by simp

lemma wf_chain: "wf_parents chain"
  by (auto simp: wf_parents_def chain_def split: nat.splits)

lemma nlink_self: "nlink (x\<lparr>selfSubscribed := b\<rparr>) = nlink x"
  by (simp add: nlink_def)

lemma ready_self:
  assumes "sub_inv s"
  shows "ready (upd_sub i (\<lambda>x. x\<lparr>selfSubscribed := b\<rparr>) s) i"
proof -
  let ?s1 = "upd_sub i (\<lambda>x. x\<lparr>selfSubscribed := b\<rparr>) s"
  have "W ?s1" using assms W_same[of ?s1 s] by (simp add: sub_inv_def upd_sub_def)
  moreover have "link_ok ?s1 i"
    using assms by (simp add: sub_inv_def link_ok_def nlink_self upd_sub_def)
  moreover have "below_ok ?s1 i"
  proof -
    have d1: "debt ?s1 = (debt s)(i := debt s i + (if selfSubscribed (subs s i) then 1 else 0)
                                     - (if b then 1 else 0))"
      by (rule debt_self)
    show ?thesis
      by (rule below_ok_transfer[OF conjunct1[OF sub_inv_below[OF assms, of i]]])
         (use d1 in \<open>auto simp: upd_sub_def\<close>)
  qed
  ultimately show ?thesis by (simp add: ready_def)
qed

lemma reachable_sub_inv:
  assumes wf: "wf_parents par"
  shows "reachable par s \<Longrightarrow> sub_inv s"
proof (induction rule: reachable.induct)
  case initial
  show ?case by (rule sub_inv_init[OF wf])
next
  case (returned s n f r)
  from L4D(1)[OF L4_all returned.IH returned.hyps(2)] show ?case by simp
next
  case (marked s e)
  from marked.IH show ?case by (rule sub_inv_same) (simp_all add: emit_def)
next
  case (assigned s v)
  from assigned.IH show ?case by (rule sub_inv_same) simp_all
qed






lemma sites_are_call_states:
  "\<not> selfSubscribed (subs s i) \<Longrightarrow>
     call (Suc n) (TrySubscribeSelf i) s
       = trySubscribe n i (upd_sub i (\<lambda>x. x\<lparr>selfSubscribed := True\<rparr>) s)"
  "selfSubscribed (subs s i) \<Longrightarrow>
     call (Suc n) (TryUnsubscribeSelf i) s
       = tryUnsubscribe n i (upd_sub i (\<lambda>x. x\<lparr>selfSubscribed := False\<rparr>) s)"
  "\<not> removed (cleanups s k) \<Longrightarrow>
     call (Suc n) (Cleanup k) s
       = tryUnsubscribe n (owner (cleanups s k))
           (unsubscribe_cl (cleanupListener (cleanups s k)) (flip k s))"
  "trySubscribe n i s = None \<Longrightarrow> addNestedSub (Suc n) i f s = None"
  "unsubscribe (subs (inc j s) j) = None \<Longrightarrow> parentSub (subs (inc j s) j) = Some i \<Longrightarrow>
     addNestedSub n i (HandleChangeWrapper j) (emit (UpstreamSubscribed j) (inc j s)) = None \<Longrightarrow>
     trySubscribe (Suc n) j s = None"
  "unsubscribe (subs (dec j s) j) = Some h \<Longrightarrow> subscriptionsAmount (subs (dec j s) j) = 0 \<Longrightarrow>
     call n h (emit (UpstreamUnsubscribed j) (dec j s)) = None \<Longrightarrow>
     tryUnsubscribe (Suc n) j s = None"
  by (simp_all add: call_Cleanup_Suc addNestedSub_Suc trySubscribe_Suc tryUnsubscribe_Suc
        inc_def dec_def upd_sub_def Let_def)

section \<open>C3: what \<open>get\<close> returns\<close>

text \<open>
  Claim C3. After any finite sequence of \<open>subscribe\<close> and unsubscribe calls on one listener
  collection, with no \<open>clear\<close>, \<open>get()\<close> returns exactly the listeners whose unsubscribe
  function has not been invoked, in the order of their \<open>subscribe\<close> calls; each carries
  the callback it was subscribed with.
\<close>

theorem registry_get_insertion_order:
  assumes "wf_ops 0 ops"
  shows "get 0 (reg_run 0 ops fresh_registry)
           = Some [k \<leftarrow> [0..<length (sub_cbs ops)]. Unsub k \<notin> set ops]
         \<and> (\<forall>k<length (sub_cbs ops).
               callback (cells (reg_run 0 ops fresh_registry) k) = sub_cbs ops ! k)"
proof -
  let ?s = "reg_run 0 ops fresh_registry"
  let ?us = "[k \<leftarrow> [0..<length (sub_cbs ops)]. Unsub k \<notin> set ops]"
  have inv: "reg ?s 0 ?us \<and> (\<forall>u. u_isSubscribed (unsubs ?s u) \<longrightarrow> lis ?s u = u)
     \<and> (\<forall>k<length (sub_cbs ops). callback (cells ?s k) = sub_cbs ops ! k)"
    using reg_run_inv[OF reg_fresh fresh_counts _ assms, of "[]"] by simp
  then have "\<forall>u\<in>set ?us. lis ?s u = u" unfolding reg_def by blast
  then have "map (lis ?s) ?us = ?us" by (intro map_idI) blast
  with inv reg_get[of ?s 0 ?us] show ?thesis by simp
qed

theorem registry_get_insertion_order_witness:
  "wf_ops 0 [Sub (Log 1), Sub (Log 2), Sub (Log 3), Unsub 1, Unsub 1, Sub (Log 4), Unsub 0]
   \<and> get 0 (reg_run 0 [Sub (Log 1), Sub (Log 2), Sub (Log 3), Unsub 1, Unsub 1, Sub (Log 4), Unsub 0]
              fresh_registry) = Some [2, 3]
   \<and> callback (cells (reg_run 0 [Sub (Log 1), Sub (Log 2), Sub (Log 3), Unsub 1, Unsub 1,
                                   Sub (Log 4), Unsub 0] fresh_registry) 2) = Log 3"
  using registry_get_insertion_order
          [of "[Sub (Log 1), Sub (Log 2), Sub (Log 3), Unsub 1, Unsub 1, Sub (Log 4), Unsub 0]"]
  by (simp add: upt_conv_Cons)

section \<open>C2: connecting and disconnecting on the edges of the counter\<close>




section \<open>C6: the public \<open>trySubscribe\<close> and \<open>tryUnsubscribe\<close> are idempotent\<close>

lemma trySubscribe_count:
  assumes r: "ready s i" and n: "2 * i + 1 \<le> n"
  shows "\<exists>s' es. trySubscribe n i s = Some (Ok () s')
     \<and> subscriptionsAmount (subs s' i) = subscriptionsAmount (subs s i) + 1
     \<and> selfSubscribed (subs s' i) = selfSubscribed (subs s i)
     \<and> onStateChange (subs s' i) = onStateChange (subs s i)
     \<and> store_state s' = store_state s
     \<and> calls s' = calls s @ es \<and> up_events i es"
proof -
  from r have w: "W s" and l: "link_ok s i" by (simp_all add: ready_def)
  from n obtain n' where n': "n = Suc n'" by (cases n) auto
  have "\<exists>s'. trySubscribe n i s = Some (Ok () s')
     \<and> subscriptionsAmount (subs s' i) = subscriptionsAmount (subs s i) + 1
     \<and> selfSubscribed (subs s' i) = selfSubscribed (subs s i)
     \<and> onStateChange (subs s' i) = onStateChange (subs s i)"
  proof (cases "subscriptionsAmount (subs s i) = 0")
    case True
    from try_connect[OF r True n] True show ?thesis by auto
  next
    case False
    then have "1 \<le> subscriptionsAmount (subs s i)" using l by (simp add: link_ok_def nlink_def)
    from try_keep[OF l this, of n'] show ?thesis by (simp add: n' upd_sub_def)
  qed
  then obtain s' where s': "trySubscribe n i s = Some (Ok () s')"
     "subscriptionsAmount (subs s' i) = subscriptionsAmount (subs s i) + 1"
     "selfSubscribed (subs s' i) = selfSubscribed (subs s i)"
     "onStateChange (subs s' i) = onStateChange (subs s i)" by blast
  have h: "hp i 1 s (Ok () s')" by (rule L1_hp_trySubscribe[OF w s'(1)])
  then obtain es where "calls s' = calls s @ es" "up_events i es"
    by (auto simp: hp_def rel0_def)
  with s' hp_store[OF h] show ?thesis by auto
qed

lemma tryUnsubscribe_count:
  assumes r: "ready s i" and c: "1 \<le> subscriptionsAmount (subs s i)" and n: "2 * i + 2 \<le> n"
  shows "\<exists>s'. tryUnsubscribe n i s = Some (Ok () s')
     \<and> subscriptionsAmount (subs s' i) = subscriptionsAmount (subs s i) - 1
     \<and> selfSubscribed (subs s' i) = selfSubscribed (subs s i)"
proof -
  from r have l: "link_ok s i" by (simp add: ready_def)
  from n obtain n' where n': "n = Suc n'" by (cases n) auto
  show ?thesis
  proof (cases "subscriptionsAmount (subs s i) = 1")
    case True
    from un_disconnect[OF r True n] True show ?thesis by auto
  next
    case False
    with c have "1 < subscriptionsAmount (subs s i)" by simp
    from un_keep[OF l this, of n'] show ?thesis by (simp add: n' upd_sub_def)
  qed
qed

lemma self_subscribe:
  assumes i: "sub_inv s" and n: "2 * i + 2 \<le> n"
  shows "\<exists>s1 es. call n (TrySubscribeSelf i) s = Some (Ok () s1) \<and> sub_inv s1
     \<and> selfSubscribed (subs s1 i)
     \<and> subscriptionsAmount (subs s1 i)
        = subscriptionsAmount (subs s i) + (if selfSubscribed (subs s i) then 0 else 1)
     \<and> onStateChange (subs s1 i) = onStateChange (subs s i)
     \<and> store_state s1 = store_state s
     \<and> calls s1 = calls s @ es \<and> up_events i es"
proof -
  from n obtain n' where n': "n = Suc n'" by (cases n) auto
  show ?thesis
  proof (cases "selfSubscribed (subs s i)")
    case True
    with i show ?thesis by (simp add: n')
  next
    case False
    let ?s0 = "upd_sub i (\<lambda>x. x\<lparr>selfSubscribed := True\<rparr>) s"
    have "2 * i + 1 \<le> n'" using n n' by simp
    from trySubscribe_count[OF ready_self[OF i, of i True] this] obtain s1 es where
      t: "trySubscribe n' i ?s0 = Some (Ok () s1)"
         "subscriptionsAmount (subs s1 i) = subscriptionsAmount (subs ?s0 i) + 1"
         "selfSubscribed (subs s1 i) = selfSubscribed (subs ?s0 i)"
         "onStateChange (subs s1 i) = onStateChange (subs ?s0 i)"
         "store_state s1 = store_state ?s0"
         "calls s1 = calls ?s0 @ es" "up_events i es"
      by blast
    from sub_inv_trySubscribeSelf[OF i False t(1)] have "sub_inv s1" by simp
    with t False show ?thesis by (simp add: n' upd_sub_def)
  qed
qed

lemma self_unsubscribe:
  assumes i: "sub_inv s" and self: "selfSubscribed (subs s i)" and n: "2 * i + 3 \<le> n"
  shows "\<exists>s2. call n (TryUnsubscribeSelf i) s = Some (Ok () s2) \<and> sub_inv s2
     \<and> \<not> selfSubscribed (subs s2 i)
     \<and> subscriptionsAmount (subs s2 i) = subscriptionsAmount (subs s i) - 1"
proof -
  from n obtain n' where n': "n = Suc n'" by (cases n) auto
  let ?s0 = "upd_sub i (\<lambda>x. x\<lparr>selfSubscribed := False\<rparr>) s"
  have "debt s i = 0" using i by (simp add: sub_inv_def)
  then have "1 \<le> subscriptionsAmount (subs s i)" using reasons_self[OF self] by (simp add: debt_def)
  then have c: "1 \<le> subscriptionsAmount (subs ?s0 i)" by (simp add: upd_sub_def)
  have "2 * i + 2 \<le> n'" using n n' by simp
  from tryUnsubscribe_count[OF ready_self[OF i, of i False] c this] obtain s2 where
    t: "tryUnsubscribe n' i ?s0 = Some (Ok () s2)"
       "subscriptionsAmount (subs s2 i) = subscriptionsAmount (subs ?s0 i) - 1"
       "selfSubscribed (subs s2 i) = selfSubscribed (subs ?s0 i)"
    by blast
  from sub_inv_tryUnsubscribeSelf[OF i self t(1)] have "sub_inv s2" by simp
  with t self show ?thesis by (simp add: n' upd_sub_def)
qed

lemma repeat_trySubscribeSelf:
  "selfSubscribed (subs s i) \<Longrightarrow> call_all (Suc n) (replicate k (TrySubscribeSelf i)) s = Some (Ok () s)"
  by (induction k) auto

lemma repeat_tryUnsubscribeSelf:
  "\<not> selfSubscribed (subs s i) \<Longrightarrow>
   call_all (Suc n) (replicate k (TryUnsubscribeSelf i)) s = Some (Ok () s)"
  by (induction k) auto

text \<open>
  Claim C6. In every reachable state and for every node \<open>i\<close>: calling the public
  \<open>trySubscribe\<close> two times or more (\<open>Suc k\<close> calls after the first one is counted in
  \<open>replicate (Suc k)\<close>) ends in the state that one call ends in; there \<open>isSubscribed()\<close> is
  true and the counter has grown by one if the node was not self-subscribed and not at all
  if it was. One public \<open>tryUnsubscribe\<close> then makes \<open>isSubscribed()\<close> false and takes
  exactly one from the counter, and any number of further public \<open>tryUnsubscribe\<close> calls
  changes nothing.
\<close>

theorem self_subscribe_idempotent:
  assumes wf: "wf_parents par" and reach: "call m prog (init par) = Some r"
    and fuel: "2 * i + 3 \<le> n"
  shows "\<exists>s1 s2.
       call n (TrySubscribeSelf i) (st r) = Some (Ok () s1)
     \<and> call_all n (replicate (Suc k) (TrySubscribeSelf i)) (st r) = Some (Ok () s1)
     \<and> isSubscribed i s1
     \<and> subscriptionsAmount (subs s1 i)
        = subscriptionsAmount (subs (st r) i) + (if isSubscribed i (st r) then 0 else 1)
     \<and> call n (TryUnsubscribeSelf i) s1 = Some (Ok () s2)
     \<and> \<not> isSubscribed i s2
     \<and> subscriptionsAmount (subs s2 i) = subscriptionsAmount (subs s1 i) - 1
     \<and> call_all n (replicate k (TryUnsubscribeSelf i)) s2 = Some (Ok () s2)"
proof -
  have inv: "sub_inv (st r)" by (rule reachable_inv[OF wf reach])
  from fuel obtain n' where n': "n = Suc n'" by (cases n) auto
  have n2: "2 * i + 2 \<le> n" using fuel by simp
  from self_subscribe[OF inv n2] obtain s1 where
    a: "call n (TrySubscribeSelf i) (st r) = Some (Ok () s1)" "sub_inv s1"
       "selfSubscribed (subs s1 i)"
       "subscriptionsAmount (subs s1 i)
          = subscriptionsAmount (subs (st r) i) + (if selfSubscribed (subs (st r) i) then 0 else 1)"
    by blast
  from self_unsubscribe[OF a(2) a(3) fuel] obtain s2 where
    b: "call n (TryUnsubscribeSelf i) s1 = Some (Ok () s2)" "\<not> selfSubscribed (subs s2 i)"
       "subscriptionsAmount (subs s2 i) = subscriptionsAmount (subs s1 i) - 1"
    by blast
  have c: "call_all n (replicate (Suc k) (TrySubscribeSelf i)) (st r) = Some (Ok () s1)"
    using a(1) repeat_trySubscribeSelf[OF a(3), of n' k] by (simp add: n')
  have d: "call_all n (replicate k (TryUnsubscribeSelf i)) s2 = Some (Ok () s2)"
    using repeat_tryUnsubscribeSelf[OF b(2), of n' k] by (simp add: n')
  from a b c d show ?thesis by (auto simp: isSubscribed_def)
qed

theorem self_subscribe_idempotent_witness:
  "wf_parents chain \<and> call 1 (Log 0) (init chain) \<noteq> None \<and> 2 * 1 + 3 \<le> (5::nat)
   \<and> (\<exists>s1 s2.
       call 5 (TrySubscribeSelf 1) (st (the (call 1 (Log 0) (init chain)))) = Some (Ok () s1)
     \<and> call_all 5 (replicate (Suc 2) (TrySubscribeSelf 1)) (st (the (call 1 (Log 0) (init chain))))
         = Some (Ok () s1)
     \<and> isSubscribed 1 s1
     \<and> subscriptionsAmount (subs s1 1) = 1
     \<and> call 5 (TryUnsubscribeSelf 1) s1 = Some (Ok () s2)
     \<and> \<not> isSubscribed 1 s2
     \<and> subscriptionsAmount (subs s2 1) = 0
     \<and> call_all 5 (replicate 2 (TryUnsubscribeSelf 1)) s2 = Some (Ok () s2))"
proof -
  let ?r = "the (call 1 (Log 0) (init chain))"
  have ne: "call 1 (Log 0) (init chain) \<noteq> None"
    by (simp add: run_simps busy_program_def)
  then have run: "call 1 (Log 0) (init chain) = Some ?r" by simp
  have c: "subscriptionsAmount (subs (st ?r) 1) = 0" "\<not> isSubscribed 1 (st ?r)" by (simp_all add: run_simps)
  have f: "2 * 1 + 3 \<le> (5::nat)" by simp
  from self_subscribe_idempotent[OF wf_chain run f, of 2] c ne wf_chain show ?thesis by auto
qed

section \<open>C7: invoking an unsubscribe or cleanup function again\<close>

lemma unsubscribe_cl_twice: "unsubscribe_cl u (unsubscribe_cl u s) = unsubscribe_cl u s"
proof (cases "\<not> u_isSubscribed (unsubs s u) \<or> firstL (cols s (u_col (unsubs s u))) = None")
  case True
  then show ?thesis by (simp add: unsubscribe_cl_noop)
next
  case False
  then have "\<not> u_isSubscribed (unsubs (unsubscribe_cl u s) u)"
    by (simp add: unsubscribe_cl_fields)
  then show ?thesis by (simp add: unsubscribe_cl_noop)
qed

lemma unsubscribed_stays:
  assumes "wf_ops 0 ops" and "Unsub u \<in> set ops"
  shows "unsubscribe_cl u (reg_run 0 ops fresh_registry) = reg_run 0 ops fresh_registry"
proof -
  let ?s = "reg_run 0 ops fresh_registry"
  let ?us = "[k \<leftarrow> [0..<length (sub_cbs ops)]. Unsub k \<notin> set ops]"
  have "reg ?s 0 ?us"
    using reg_run_inv[OF reg_fresh fresh_counts _ assms(1), of "[]"] by simp
  moreover have "u \<notin> set ?us" using assms(2) by simp
  ultimately show ?thesis by (rule reg_unsubscribe_notin)
qed

lemma call_mono: "W s \<Longrightarrow> call n f s = Some r \<Longrightarrow> mono s (st r)"
  using L1_all[of n] by (simp add: L1_def gpost_def)

lemma removed_stays:
  "mono s s' \<Longrightarrow> k < ncleanups s \<Longrightarrow> removed (cleanups s k) \<Longrightarrow> removed (cleanups s' k)"
  by (simp add: mono_def)

lemma cleanup_once:
  assumes i: "sub_inv s" and k: "k < ncleanups s" and n: "2 * owner (cleanups s k) + 3 \<le> n"
  shows "\<exists>s1. call n (Cleanup k) s = Some (Ok () s1) \<and> sub_inv s1 \<and> k < ncleanups s1
            \<and> removed (cleanups s1 k)
            \<and> subscriptionsAmount (subs s1 (owner (cleanups s k)))
               = subscriptionsAmount (subs s (owner (cleanups s k)))
                 - (if removed (cleanups s k) then 0 else 1)"
proof -
  let ?o = "owner (cleanups s k)"
  from n obtain n' where n': "n = Suc n'" by (cases n) auto
  show ?thesis
  proof (cases "removed (cleanups s k)")
    case True
    with i k show ?thesis by (simp add: n' call_Cleanup_Suc)
  next
    case False
    let ?s2 = "unsubscribe_cl (cleanupListener (cleanups s k)) (flip k s)"
    have w: "W s" using i by (simp add: sub_inv_def)
    have w2: "W ?s2" using w by (simp add: W_steps W_flip)
    have d2: "debt ?s2 = (debt s)(?o := debt s ?o + 1)"
      using debt_flip(1)[OF False k] by (simp add: debt_steps)
    have b2: "below_ok ?s2 ?o"
      by (rule below_ok_transfer[OF conjunct1[OF sub_inv_below[OF i, of ?o]]])
         (use d2 in \<open>auto simp: step_fields\<close>)
    have l2: "link_ok ?s2 ?o" using i by (simp add: sub_inv_def link_ok_def step_fields)
    have "debt s ?o = 0" using i by (simp add: sub_inv_def)
    then have "1 \<le> subscriptionsAmount (subs s ?o)"
      using debt_flip(2)[OF False k] by (simp add: debt_def)
    then have c2: "1 \<le> subscriptionsAmount (subs ?s2 ?o)" by (simp add: step_fields)
    have rd: "ready ?s2 ?o" using w2 b2 l2 by (simp add: ready_def)
    have "2 * ?o + 2 \<le> n'" using n n' by simp
    from tryUnsubscribe_count[OF rd c2 this] obtain s1 where
      t: "tryUnsubscribe n' ?o ?s2 = Some (Ok () s1)"
         "subscriptionsAmount (subs s1 ?o) = subscriptionsAmount (subs ?s2 ?o) - 1"
      by blast
    have run: "call n (Cleanup k) s = Some (Ok () s1)"
      using False t(1) by (simp add: n' call_Cleanup_Suc)
    from sub_inv_Cleanup[OF i run] have i1: "sub_inv s1" by simp
    have m: "mono ?s2 s1" using L1_hp_tryUnsubscribe[OF w2 t(1)] by (simp add: hp_def rel0_def)
    have "k < ncleanups ?s2" "removed (cleanups ?s2 k)" using k by (simp_all add: step_fields)
    with m have "removed (cleanups s1 k)" "k < ncleanups s1" by (auto simp: mono_def)
    with run i1 t(2) False show ?thesis by (simp add: step_fields)
  qed
qed

text \<open>
  What the code does keep of a second invocation. (1) An unsubscribe function invoked two
  times in a row leaves, the second time, every link, \<open>first\<close> and \<open>last\<close> as the first
  invocation left them, in any state. (2) On a collection that is never cleared, an
  unsubscribe function that has been invoked is a no-op at any later time, whatever
  \<open>subscribe\<close> and unsubscribe calls came in between. (3) In every reachable state, a cleanup
  function that \<open>addNestedSub\<close> has returned runs to the end, and invoking it again at once,
  or after any further run of any program, returns the state unchanged: links, \<open>first\<close>,
  \<open>last\<close> and \<open>subscriptionsAmount\<close> included.
\<close>

lemma invoked_again_noop:
  "(\<forall>u s. unsubscribe_cl u (unsubscribe_cl u s) = unsubscribe_cl u s)
   \<and> (\<forall>ops u. wf_ops 0 ops \<and> Unsub u \<in> set ops \<longrightarrow>
         unsubscribe_cl u (reg_run 0 ops fresh_registry) = reg_run 0 ops fresh_registry)
   \<and> (\<forall>par m prog r k n. wf_parents par \<and> call m prog (init par) = Some r
         \<and> k < ncleanups (st r) \<and> 2 * owner (cleanups (st r) k) + 3 \<le> n \<longrightarrow>
         (\<exists>s1. call n (Cleanup k) (st r) = Some (Ok () s1)
            \<and> call n (Cleanup k) s1 = Some (Ok () s1)
            \<and> (\<forall>m' prog' r'. call m' prog' s1 = Some r' \<longrightarrow>
                  call n (Cleanup k) (st r') = Some (Ok () (st r')))))"
proof (intro conjI allI impI)
  fix u s show "unsubscribe_cl u (unsubscribe_cl u s) = unsubscribe_cl u s"
    by (rule unsubscribe_cl_twice)
next
  fix ops u assume "wf_ops 0 ops \<and> Unsub u \<in> set ops"
  then show "unsubscribe_cl u (reg_run 0 ops fresh_registry) = reg_run 0 ops fresh_registry"
    using unsubscribed_stays by blast
next
  fix par m prog r k n
  assume a: "wf_parents par \<and> call m prog (init par) = Some r
         \<and> k < ncleanups (st r) \<and> 2 * owner (cleanups (st r) k) + 3 \<le> n"
  then have i: "sub_inv (st r)" using reachable_inv by blast
  from a obtain n' where n': "n = Suc n'" by (cases n) auto
  from cleanup_once[OF i] a obtain s1 where
    s1: "call n (Cleanup k) (st r) = Some (Ok () s1)" "sub_inv s1" "k < ncleanups s1"
        "removed (cleanups s1 k)"
    by blast
  have again: "call n (Cleanup k) s1 = Some (Ok () s1)"
    using s1(4) by (simp add: n' call_Cleanup_Suc)
  have later: "call n (Cleanup k) (st r') = Some (Ok () (st r'))"
    if "call m' prog' s1 = Some r'" for m' prog' r'
  proof -
    have "W s1" using s1(2) by (simp add: sub_inv_def)
    from call_mono[OF this that] have "removed (cleanups (st r') k)"
      using s1(3,4) by (rule removed_stays)
    then show ?thesis by (simp add: n' call_Cleanup_Suc)
  qed
  from s1(1) again later
  show "\<exists>s1. call n (Cleanup k) (st r) = Some (Ok () s1)
            \<and> call n (Cleanup k) s1 = Some (Ok () s1)
            \<and> (\<forall>m' prog' r'. call m' prog' s1 = Some r' \<longrightarrow>
                  call n (Cleanup k) (st r') = Some (Ok () (st r')))"
    by blast
qed

text \<open>
  A run that is open to any holder of a subscription: the root node \<open>0\<close> attaches
  (\<open>trySubscribe()\<close>), the caller takes \<open>getListeners()\<close>, which is collection \<open>0\<close>, and
  subscribes \<open>a\<close> on it, which gives the unsubscribe function \<open>0\<close>; the node detaches
  (\<open>tryUnsubscribe()\<close>, which clears the collection): this is the state
  \<open>held_registry_detached\<close>. The first invocation of the unsubscribe function changes
  nothing; the caller subscribes \<open>b\<close>, and \<open>get()\<close> is \<open>[b]\<close>; the second invocation of the
  unsubscribe function of \<open>a\<close> leaves \<open>get()\<close> empty.
\<close>

lemma unsubscribe_again_through_getListeners:
  "listeners (subs (st (the (call 3 (TrySubscribeSelf 0) (init (\<lambda>_. None))))) 0) = Some 0
   \<and> fst (subscribe 0 (Log 1) (st (the (call 3 (TrySubscribeSelf 0) (init (\<lambda>_. None)))))) = 0
   \<and> get 0 held_registry_detached = Some []
   \<and> unsubscribe_cl 0 held_registry_detached = held_registry_detached
   \<and> get 0 (snd (subscribe 0 (Log 2) (unsubscribe_cl 0 held_registry_detached))) = Some [1]
   \<and> callback (cells (snd (subscribe 0 (Log 2) (unsubscribe_cl 0 held_registry_detached))) 1) = Log 2
   \<and> get 0 (unsubscribe_cl 0 (snd (subscribe 0 (Log 2) (unsubscribe_cl 0 held_registry_detached))))
       = Some []"
proof (intro conjI)
  show "listeners (subs (st (the (call 3 (TrySubscribeSelf 0) (init (\<lambda>_. None))))) 0) = Some 0"
    by (simp add: run_simps)
  show "fst (subscribe 0 (Log 1) (st (the (call 3 (TrySubscribeSelf 0) (init (\<lambda>_. None)))))) = 0"
    by (simp add: run_simps)
  show "get 0 held_registry_detached = Some []"
    by (simp add: held_registry_detached_def get_def get_loop.simps run_simps)
  show "unsubscribe_cl 0 held_registry_detached = held_registry_detached"
    by (simp add: held_registry_detached_def run_simps)
  show "get 0 (snd (subscribe 0 (Log 2) (unsubscribe_cl 0 held_registry_detached))) = Some [1]"
    by (simp add: held_registry_detached_def get_def get_loop.simps run_simps)
  show "callback (cells (snd (subscribe 0 (Log 2) (unsubscribe_cl 0 held_registry_detached))) 1)
          = Log 2"
    by (simp add: held_registry_detached_def run_simps)
  show "get 0 (unsubscribe_cl 0 (snd (subscribe 0 (Log 2) (unsubscribe_cl 0 held_registry_detached))))
          = Some []"
    by (simp add: held_registry_detached_def get_def get_loop.simps run_simps)
qed

text \<open>
  Claim C7 says that a second or later invocation of an unsubscribe function is a silent
  no-op. The guard of \<open>unsubscribe\<close> returns when \<open>first\<close> is null before it resets
  \<open>isSubscribed\<close>, so an invocation on an emptied collection is not recorded, and the next
  one unlinks again. On a fresh collection: \<open>subscribe(a)\<close> gives the unsubscribe function
  \<open>0\<close>; after \<open>clear()\<close> the first invocation of it changes nothing; \<open>subscribe(b)\<close> makes
  \<open>get()\<close> the list \<open>[b]\<close>; the second invocation of the unsubscribe function of \<open>a\<close> leaves
  \<open>get()\<close> empty: \<open>b\<close> is gone, and no unsubscribe function of \<open>b\<close> was invoked.
\<close>

theorem unsubscribe_again_after_clear:
  "get 0 (clear 0 (snd (subscribe 0 (Log 1) fresh_registry))) = Some []
   \<and> unsubscribe_cl 0 (clear 0 (snd (subscribe 0 (Log 1) fresh_registry)))
       = clear 0 (snd (subscribe 0 (Log 1) fresh_registry))
   \<and> get 0 (snd (subscribe 0 (Log 2)
               (unsubscribe_cl 0 (clear 0 (snd (subscribe 0 (Log 1) fresh_registry))))))
       = Some [1]
   \<and> callback (cells (snd (subscribe 0 (Log 2)
               (unsubscribe_cl 0 (clear 0 (snd (subscribe 0 (Log 1) fresh_registry)))))) 1)
       = Log 2
   \<and> get 0 (unsubscribe_cl 0 (snd (subscribe 0 (Log 2)
               (unsubscribe_cl 0 (clear 0 (snd (subscribe 0 (Log 1) fresh_registry)))))))
       = Some []"
  by (simp add: get_def get_loop.simps fresh_registry_def createListenerCollection_def init_def
        subscribe_def unsubscribe_cl_def clear_def upd_col_def upd_cell_def Let_def)

theorem unsubscribe_again_after_clear_witness:
  "get 0 (unsubscribe_cl 0 (snd (subscribe 0 (Log 2)
               (unsubscribe_cl 0 (clear 0 (snd (subscribe 0 (Log 1) fresh_registry)))))))
   \<noteq> get 0 (snd (subscribe 0 (Log 2)
               (unsubscribe_cl 0 (clear 0 (snd (subscribe 0 (Log 1) fresh_registry))))))"
proof -
  have a: "get 0 (snd (subscribe 0 (Log 2)
               (unsubscribe_cl 0 (clear 0 (snd (subscribe 0 (Log 1) fresh_registry))))))
           = Some [1]"
    using unsubscribe_again_after_clear by blast
  have b: "get 0 (unsubscribe_cl 0 (snd (subscribe 0 (Log 2)
               (unsubscribe_cl 0 (clear 0 (snd (subscribe 0 (Log 1) fresh_registry)))))))
           = Some []"
    using unsubscribe_again_after_clear by blast
  show ?thesis unfolding a b by simp
qed

section \<open>C8: a listener that throws during a notification pass\<close>

text \<open>
  Claim C8. (1) Whatever the collection holds and whatever its callbacks do: when a pass
  has come to a listener \<open>l\<close> after \<open>k\<close> callbacks that returned (\<open>pass_after\<close>), and the
  callback of \<open>l\<close> ends in an exception, then the loop, \<open>notify\<close> and \<open>notifyNestedSubs\<close> end
  in that exception, in the state in which the callback raised it: nothing catches it, and
  nothing runs after it, so no later listener is invoked. (2) The loop raises no exception
  of its own: when it ends in one, the callback of a listener of the pass ended in it.
  (3) On a collection that holds listeners \<open>fs\<close> that only log, then a listener that throws,
  then any listeners \<open>zs\<close>, in this order of subscription, \<open>notify\<close> ends in the exception;
  the trace is what the listeners \<open>fs\<close> logged, in order, and no listener of \<open>zs\<close> has been
  invoked, whatever its callback is.
\<close>

theorem throwing_listener_halts_pass:
  "(\<forall>n k p s l s' e s''.
        pass_after n k p s = Some (Some l, s')
      \<and> call (n - Suc k) (callback (cells s' l)) s' = Some (Exn e s'') \<longrightarrow>
        notify_loop n p s = Some (Exn e s''))
   \<and> (\<forall>n k c s l s' e s''.
        pass_after n k (firstL (cols s c)) s = Some (Some l, s')
      \<and> call (n - Suc k) (callback (cells s' l)) s' = Some (Exn e s'') \<longrightarrow>
        notify n c s = Some (Exn e s''))
   \<and> (\<forall>n k i c s l s' e s''.
        listeners (subs s i) = Some c
      \<and> pass_after n k (firstL (cols s c)) (emit (Notified i) s) = Some (Some l, s')
      \<and> call (n - Suc k) (callback (cells s' l)) s' = Some (Exn e s'') \<longrightarrow>
        call (Suc n) (NotifyNestedSubs i) s = Some (Exn e s''))
   \<and> (\<forall>n p s e s''. notify_loop n p s = Some (Exn e s'') \<longrightarrow>
        (\<exists>k l s'. pass_after n k p s = Some (Some l, s')
           \<and> call (n - Suc k) (callback (cells s' l)) s' = Some (Exn e s'')))
   \<and> (\<forall>n fs zs. (\<forall>f\<in>set fs. quiet f \<and> depth f + length fs < n) \<and> length fs + 2 \<le> n \<longrightarrow>
        notify n 0 (reg_run 0 (map Sub (fs @ Throw # zs)) fresh_registry)
          = Some (Exn Thrown
               ((reg_run 0 (map Sub (fs @ Throw # zs)) fresh_registry)
                  \<lparr>calls := concat (map said fs)\<rparr>)))"
proof (intro conjI allI impI)
  fix n k p s l s' e s''
  assume "pass_after n k p s = Some (Some l, s')
      \<and> call (n - Suc k) (callback (cells s' l)) s' = Some (Exn e s'')"
  then show "notify_loop n p s = Some (Exn e s'')" using pass_after_throw by blast
next
  fix n k c s l s' e s''
  assume "pass_after n k (firstL (cols s c)) s = Some (Some l, s')
      \<and> call (n - Suc k) (callback (cells s' l)) s' = Some (Exn e s'')"
  then have "notify_loop n (firstL (cols s c)) s = Some (Exn e s'')"
    using pass_after_throw by blast
  then show "notify n c s = Some (Exn e s'')" by (simp add: notify_def batch_def)
next
  fix n k i c s l s' e s''
  assume a: "listeners (subs s i) = Some c
      \<and> pass_after n k (firstL (cols s c)) (emit (Notified i) s) = Some (Some l, s')
      \<and> call (n - Suc k) (callback (cells s' l)) s' = Some (Exn e s'')"
  then have "notify_loop n (firstL (cols s c)) (emit (Notified i) s) = Some (Exn e s'')"
    using pass_after_throw by blast
  with a show "call (Suc n) (NotifyNestedSubs i) s = Some (Exn e s'')"
    by (simp add: Let_def batch_def emit_def)
next
  fix n p s e s''
  assume "notify_loop n p s = Some (Exn e s'')"
  then show "\<exists>k l s'. pass_after n k p s = Some (Some l, s')
           \<and> call (n - Suc k) (callback (cells s' l)) s' = Some (Exn e s'')"
    by (rule throw_pass_after)
next
  fix n fs zs
  assume "(\<forall>f\<in>set fs. quiet f \<and> depth f + length fs < n) \<and> length fs + 2 \<le> n"
  then show "notify n 0 (reg_run 0 (map Sub (fs @ Throw # zs)) fresh_registry)
          = Some (Exn Thrown
               ((reg_run 0 (map Sub (fs @ Throw # zs)) fresh_registry)
                  \<lparr>calls := concat (map said fs)\<rparr>))"
    using quiet_then_throw by blast
qed

theorem throwing_listener_halts_pass_witness:
  "quiet (Seq (Log 1) (Log 2)) \<and> depth (Seq (Log 1) (Log 2)) + length [Seq (Log 1) (Log 2)] < 5
   \<and> length [Seq (Log 1) (Log 2)] + 2 \<le> (5::nat)
   \<and> notify 5 0 (reg_run 0 (map Sub ([Seq (Log 1) (Log 2)] @ Throw # [Log 3])) fresh_registry)
      = Some (Exn Thrown
           ((reg_run 0 (map Sub ([Seq (Log 1) (Log 2)] @ Throw # [Log 3])) fresh_registry)
              \<lparr>calls := [Invoked 1, Invoked 2]\<rparr>))
   \<and> listeners (subs (st (the (call 8 throwing_tree_program (init chain)))) 0) = Some 0
   \<and> get 0 (st (the (call 8 throwing_tree_program (init chain)))) = Some [0, 2, 3]
   \<and> (\<exists>s1 s2. pass_after 6 1 (firstL (cols (st (the (call 8 throwing_tree_program (init chain)))) 0))
                 (emit (Notified 0) (st (the (call 8 throwing_tree_program (init chain)))))
               = Some (Some 2, s1)
         \<and> call (6 - Suc 1) (callback (cells s1 2)) s1 = Some (Exn Thrown s2)
         \<and> call (Suc 6) (NotifyNestedSubs 0) (st (the (call 8 throwing_tree_program (init chain))))
             = Some (Exn Thrown s2)
         \<and> calls s2 = calls (st (the (call 8 throwing_tree_program (init chain))))
                       @ [Notified 0, Changed 1, Notified 1, Invoked 5])"
proof -
  define S where "S = st (the (call 8 throwing_tree_program (init chain)))"
  note F = throwing_listener_halts_pass[THEN conjunct2, THEN conjunct2, THEN conjunct2,
      THEN conjunct2, rule_format]
  note N = throwing_listener_halts_pass[THEN conjunct2, THEN conjunct2, THEN conjunct1, rule_format]
  have q: "(\<forall>f\<in>set [Seq (Log 1) (Log 2)]. quiet f \<and> depth f + length [Seq (Log 1) (Log 2)] < 5)
     \<and> length [Seq (Log 1) (Log 2)] + 2 \<le> (5::nat)"
    by simp
  have a: "notify 5 0 (reg_run 0 (map Sub ([Seq (Log 1) (Log 2)] @ Throw # [Log 3])) fresh_registry)
      = Some (Exn Thrown
           ((reg_run 0 (map Sub ([Seq (Log 1) (Log 2)] @ Throw # [Log 3])) fresh_registry)
              \<lparr>calls := [Invoked 1, Invoked 2]\<rparr>))"
  proof -
    have cs: "concat (map said [Seq (Log 1) (Log 2)]) = [Invoked 1, Invoked 2]" by simp
    show ?thesis using F[OF q, of "[Log 3]"] by (simp only: cs)
  qed
  have l: "listeners (subs S 0) = Some 0"
    by (simp add: S_def throwing_tree_program_def run_simps)
  have g: "get 0 S = Some [0, 2, 3]"
    by (simp add: S_def throwing_tree_program_def get_def get_loop.simps run_simps)
  have "\<exists>s1. pass_after 6 1 (firstL (cols S 0)) (emit (Notified 0) S) = Some (Some 2, s1)
       \<and> callback (cells s1 2) = Throw
       \<and> calls s1 = calls S @ [Notified 0, Changed 1, Notified 1, Invoked 5]"
    by (simp add: S_def throwing_tree_program_def run_simps)
  then obtain s1 where
    p: "pass_after 6 1 (firstL (cols S 0)) (emit (Notified 0) S) = Some (Some 2, s1)"
    and t: "callback (cells s1 2) = Throw"
    and c: "calls s1 = calls S @ [Notified 0, Changed 1, Notified 1, Invoked 5]"
    by blast
  have e: "call (6 - Suc 1) (callback (cells s1 2)) s1 = Some (Exn Thrown s1)"
  proof -
    have "(6::nat) - Suc 1 = Suc 3" by simp
    then show ?thesis by (simp only: t call.simps)
  qed
  from N[OF conjI[OF l conjI[OF p e]]]
  have "call (Suc 6) (NotifyNestedSubs 0) S = Some (Exn Thrown s1)" .
  with p e c have "\<exists>s1 s2. pass_after 6 1 (firstL (cols S 0)) (emit (Notified 0) S) = Some (Some 2, s1)
         \<and> call (6 - Suc 1) (callback (cells s1 2)) s1 = Some (Exn Thrown s2)
         \<and> call (Suc 6) (NotifyNestedSubs 0) S = Some (Exn Thrown s2)
         \<and> calls s2 = calls S @ [Notified 0, Changed 1, Notified 1, Invoked 5]"
    by blast
  moreover have "quiet (Seq (Log 1) (Log 2))
      \<and> depth (Seq (Log 1) (Log 2)) + length [Seq (Log 1) (Log 2)] < 5
      \<and> length [Seq (Log 1) (Log 2)] + 2 \<le> (5::nat)"
    by simp
  ultimately show ?thesis using a l g unfolding S_def by blast
qed

section \<open>C10: the missing methods of the null collection are never called\<close>

text \<open>
  Claim C10. The model raises \<open>TypeError\<close> exactly where \<open>addNestedSub\<close> would call
  \<open>subscribe\<close>, or \<open>tryUnsubscribe\<close> would call \<open>clear\<close>, on the null collection. No run
  of any program from the initial world ends in that error, whatever the fuel, and in the
  state it reaches every node holds the null collection exactly when it holds no upstream
  handle.
\<close>

theorem null_registry_methods_unreachable:
  assumes wf: "wf_parents par" and run: "call n prog (init par) = Some r"
  shows "(\<forall>s'. r \<noteq> Exn TypeError s')
       \<and> (\<forall>i. (listeners (subs (st r) i) = None) = (unsubscribe (subs (st r) i) = None))"
proof -
  from L4D(1)[OF L4_all sub_inv_init[OF wf] run]
  have "sub_inv (st r)" and "no_type_error r" by simp_all
  then show ?thesis by (auto simp: sub_inv_def link_ok_def nlink_def)
qed

theorem null_registry_methods_unreachable_witness:
  "wf_parents chain \<and> call 20 busy_program (init chain) \<noteq> None
   \<and> (\<forall>s'. the (call 20 busy_program (init chain)) \<noteq> Exn TypeError s')"
proof -
  let ?r = "the (call 20 busy_program (init chain))"
  have ne: "call 20 busy_program (init chain) \<noteq> None"
    by (simp add: run_simps busy_program_def)
  then have run: "call 20 busy_program (init chain) = Some ?r" by simp
  from null_registry_methods_unreachable[OF wf_chain run] ne wf_chain show ?thesis by auto
qed

section \<open>No call takes an event back\<close>

lemma grows_refl [simp]: "grows s s" by (simp add: grows_def)

lemma grows_trans: "grows s s1 \<Longrightarrow> grows s1 s2 \<Longrightarrow> grows s s2"
  by (auto simp: grows_def)

lemma grows_same: "calls s' = calls s \<Longrightarrow> grows s s'" by (simp add: grows_def)

lemma grows_left: "calls s0 = calls s \<Longrightarrow> grows s0 s' \<Longrightarrow> grows s s'" by (simp add: grows_def)

lemma grows_right: "grows s s1 \<Longrightarrow> calls s' = calls s1 \<Longrightarrow> grows s s'" by (simp add: grows_def)

lemma grows_emit: "grows (emit e s0) s' \<Longrightarrow> calls s0 = calls s \<Longrightarrow> grows s s'"
  by (auto simp: grows_def emit_def)

lemma GD:
  "G n \<Longrightarrow> call n f s = Some r \<Longrightarrow> grows s (st r)"
  "G n \<Longrightarrow> notify_loop n p s = Some r \<Longrightarrow> grows s (st r)"
  "G n \<Longrightarrow> dispatch_loop n k s = Some r \<Longrightarrow> grows s (st r)"
  "G n \<Longrightarrow> addNestedSub n i f s = Some r2 \<Longrightarrow> grows s (st r2)"
  "G n \<Longrightarrow> trySubscribe n i s = Some r \<Longrightarrow> grows s (st r)"
  "G n \<Longrightarrow> tryUnsubscribe n i s = Some r \<Longrightarrow> grows s (st r)"
  by (simp_all add: G_def)

lemma G_trySubscribe:
  assumes ih: "G n" and run: "trySubscribe (Suc n) i s = Some r"
  shows "grows s (st r)"
proof -
  let ?s1 = "upd_sub i (\<lambda>x. x\<lparr>subscriptionsAmount := subscriptionsAmount x + 1\<rparr>) s"
  have c: "calls ?s1 = calls s" by (simp add: upd_sub_def)
  show ?thesis
  proof (cases "unsubscribe (subs s i) = None")
    case False
    with run show ?thesis by (auto simp: trySubscribe_Suc Let_def intro: grows_same[OF c])
  next
    case True
    show ?thesis
    proof (cases "parentSub (subs s i)")
      case None
      with True run show ?thesis
        by (auto simp: trySubscribe_Suc Let_def grows_def step_fields upd_sub_def)
    next
      case (Some p)
      with True run obtain r2 where
        a: "addNestedSub n p (HandleChangeWrapper i) (emit (UpstreamSubscribed i) ?s1) = Some r2"
        and b: "calls (st r) = calls (st r2)"
        by (auto simp: trySubscribe_Suc Let_def step_fields split: option.splits result.splits)
      from GD(4)[OF ih a] have "grows (emit (UpstreamSubscribed i) ?s1) (st r2)" .
      then have "grows s (st r2)" using c by (rule grows_emit)
      then show ?thesis using b by (rule grows_right)
    qed
  qed
qed

lemma G_addNestedSub:
  assumes ih: "G n" and run: "addNestedSub (Suc n) i f s = Some r"
  shows "grows s (st r)"
proof -
  from run obtain r1 where a: "trySubscribe n i s = Some r1" and b: "calls (st r) = calls (st r1)"
    by (auto simp: addNestedSub_Suc step_fields split: option.splits result.splits)
  from GD(5)[OF ih a] b show ?thesis by (rule grows_right)
qed

lemma G_tryUnsubscribe:
  assumes ih: "G n" and run: "tryUnsubscribe (Suc n) i s = Some r"
  shows "grows s (st r)"
proof -
  let ?s1 = "upd_sub i (\<lambda>x. x\<lparr>subscriptionsAmount := subscriptionsAmount x - 1\<rparr>) s"
  have c: "calls ?s1 = calls s" by (simp add: upd_sub_def)
  show ?thesis
  proof (cases "\<exists>h. unsubscribe (subs s i) = Some h \<and> subscriptionsAmount (subs s i) = 1")
    case False
    with run show ?thesis
      by (auto simp: tryUnsubscribe_Suc Let_def intro: grows_same[OF c] split: option.splits if_splits)
  next
    case True
    then obtain h where h: "unsubscribe (subs s i) = Some h" "subscriptionsAmount (subs s i) = 1"
      by blast
    with run obtain r2 where
      a: "call n h (emit (UpstreamUnsubscribed i) ?s1) = Some r2"
      and b: "calls (st r) = calls (st r2)"
      by (auto simp: tryUnsubscribe_Suc Let_def step_fields upd_sub_def
               split: option.splits result.splits)
    from GD(1)[OF ih a] have "grows (emit (UpstreamUnsubscribed i) ?s1) (st r2)" .
    then have "grows s (st r2)" using c by (rule grows_emit)
    then show ?thesis using b by (rule grows_right)
  qed
qed

lemma G_notify_loop:
  assumes ih: "G n" and run: "notify_loop (Suc n) p s = Some r"
  shows "grows s (st r)"
proof (cases p)
  case None
  with run show ?thesis by auto
next
  case (Some l)
  with run obtain r1 where a: "call n (callback (cells s l)) s = Some r1"
    and b: "r = r1 \<or> (\<exists>p'. notify_loop n p' (st r1) = Some r)"
    by (auto split: option.splits result.splits)
  from GD(1)[OF ih a] have g: "grows s (st r1)" .
  from b show ?thesis
  proof
    assume "r = r1" with g show ?thesis by simp
  next
    assume "\<exists>p'. notify_loop n p' (st r1) = Some r"
    then obtain p' where "notify_loop n p' (st r1) = Some r" ..
    from grows_trans[OF g GD(2)[OF ih this]] show ?thesis .
  qed
qed

lemma G_dispatch_loop:
  assumes ih: "G n" and run: "dispatch_loop (Suc n) k s = Some r"
  shows "grows s (st r)"
proof (cases "k < nstore s")
  case False
  with run show ?thesis by auto
next
  case True
  show ?thesis
  proof (cases "snd (store_listeners s k)")
    case False
    with True run have "dispatch_loop n (Suc k) s = Some r" by simp
    then show ?thesis by (rule GD(3)[OF ih])
  next
    case live: True
    show ?thesis
    proof (cases "call n (fst (store_listeners s k)) s")
      case None
      with True live run show ?thesis by simp
    next
      case (Some r1)
      from GD(1)[OF ih Some] have g: "grows s (st r1)" .
      show ?thesis
      proof (cases r1)
        case (Exn e s1)
        with Some True live run have "r = r1" by simp
        with g show ?thesis by simp
      next
        case (Ok x s1)
        with Some True live run have "dispatch_loop n (Suc k) s1 = Some r" by simp
        from GD(3)[OF ih this] g Ok show ?thesis by (auto intro: grows_trans)
      qed
    qed
  qed
qed

lemma G_call:
  assumes ih: "G n" and run: "call (Suc n) f s = Some r"
  shows "grows s (st r)"
proof (cases f)
  case (Log l)
  with run show ?thesis by (auto simp: grows_def emit_def)
next
  case Throw
  with run show ?thesis by auto
next
  case (Seq g h)
  with run obtain r1 where a: "call n g s = Some r1"
    and b: "r = r1 \<or> call n h (st r1) = Some r"
    by (auto split: option.splits result.splits)
  from GD(1)[OF ih a] have g: "grows s (st r1)" .
  from b show ?thesis
  proof
    assume "r = r1" with g show ?thesis by simp
  next
    assume "call n h (st r1) = Some r"
    from grows_trans[OF g GD(1)[OF ih this]] show ?thesis .
  qed
next
  case (CallAddNestedSub i g)
  with run obtain r1 where a: "addNestedSub n i g s = Some r1" and b: "st r = st r1"
    by (auto split: option.splits result.splits)
  from GD(4)[OF ih a] b show ?thesis by simp
next
  case (SetOnStateChange i h)
  with run show ?thesis by (auto simp: grows_def upd_sub_def)
next
  case (HandleChangeWrapper i)
  show ?thesis
  proof (cases "onStateChange (subs s i)")
    case None
    with run HandleChangeWrapper have "r = Ok () (emit (Changed i) s)"
      by (simp add: Let_def emit_def)
    then show ?thesis by (simp add: grows_def emit_def)
  next
    case (Some h)
    with run HandleChangeWrapper have "call n h (emit (Changed i) s) = Some r"
      by (simp add: Let_def emit_def)
    from GD(1)[OF ih this] show ?thesis by (rule grows_emit) simp
  qed
next
  case (NotifyNestedSubs i)
  show ?thesis
  proof (cases "listeners (subs s i)")
    case None
    with run NotifyNestedSubs have "r = Ok () (emit (Notified i) s)"
      by (simp add: Let_def emit_def)
    then show ?thesis by (simp add: grows_def emit_def)
  next
    case (Some c)
    with run NotifyNestedSubs
    have "notify_loop n (firstL (cols s c)) (emit (Notified i) s) = Some r"
      by (simp add: Let_def emit_def batch_def)
    from GD(2)[OF ih this] show ?thesis by (rule grows_emit) simp
  qed
next
  case (TrySubscribeSelf i)
  show ?thesis
  proof (cases "selfSubscribed (subs s i)")
    case True
    with run TrySubscribeSelf show ?thesis by auto
  next
    case False
    with run TrySubscribeSelf
    have "trySubscribe n i (upd_sub i (\<lambda>x. x\<lparr>selfSubscribed := True\<rparr>) s) = Some r" by simp
    from GD(5)[OF ih this] show ?thesis by (rule grows_left[rotated]) (simp add: upd_sub_def)
  qed
next
  case (TryUnsubscribeSelf i)
  show ?thesis
  proof (cases "selfSubscribed (subs s i)")
    case False
    with run TryUnsubscribeSelf show ?thesis by auto
  next
    case True
    with run TryUnsubscribeSelf
    have "tryUnsubscribe n i (upd_sub i (\<lambda>x. x\<lparr>selfSubscribed := False\<rparr>) s) = Some r" by simp
    from GD(6)[OF ih this] show ?thesis by (rule grows_left[rotated]) (simp add: upd_sub_def)
  qed
next
  case (Unsubscribe u)
  with run show ?thesis by (auto simp: grows_def unsubscribe_cl_same)
next
  case (Cleanup k)
  show ?thesis
  proof (cases "removed (cleanups s k)")
    case True
    with run Cleanup show ?thesis by (auto simp: call_Cleanup_Suc)
  next
    case False
    with run Cleanup
    have "tryUnsubscribe n (owner (cleanups s k))
             (unsubscribe_cl (cleanupListener (cleanups s k)) (flip k s)) = Some r"
      by (simp add: call_Cleanup_Suc)
    from GD(6)[OF ih this] show ?thesis
      by (rule grows_left[rotated]) (simp add: step_fields)
  qed
next
  case (StoreUnsubscribe k)
  with run show ?thesis by (auto simp: grows_def step_fields)
next
  case (Dispatch v)
  with run have "dispatch_loop n 0 (s\<lparr>store_state := v\<rparr>) = Some r" by simp
  from GD(3)[OF ih this] show ?thesis by (rule grows_left[rotated]) simp
qed

lemma G_all: "G n"
proof (induction n)
  case 0
  show ?case by (simp add: G_def)
next
  case (Suc n)
  show ?case unfolding G_def
  proof (intro allI conjI impI)
    fix s f r assume "call (Suc n) f s = Some r"
    then show "grows s (st r)" by (rule G_call[OF Suc])
  next
    fix s p r assume "notify_loop (Suc n) p s = Some r"
    then show "grows s (st r)" by (rule G_notify_loop[OF Suc])
  next
    fix s k r assume "dispatch_loop (Suc n) k s = Some r"
    then show "grows s (st r)" by (rule G_dispatch_loop[OF Suc])
  next
    fix s i f r assume "addNestedSub (Suc n) i f s = Some r"
    then show "grows s (st r)" by (rule G_addNestedSub[OF Suc])
  next
    fix s i r assume "trySubscribe (Suc n) i s = Some r"
    then show "grows s (st r)" by (rule G_trySubscribe[OF Suc])
  next
    fix s i r assume "tryUnsubscribe (Suc n) i s = Some r"
    then show "grows s (st r)" by (rule G_tryUnsubscribe[OF Suc])
  qed
qed

lemmas calls_grow = GD[OF G_all]

section \<open>C9: the attach effect of Provider\<close>

text \<open>
  Claim C9. In every state in which a program can run, for the subscription \<open>i\<close> of a
  Provider and any snapshot \<open>previousState\<close>, with fuel for the chain of parents: the
  effect first sets \<open>onStateChange\<close> to \<open>notifyNestedSubs\<close>, which leaves the trace as it
  is; then the public \<open>trySubscribe\<close> returns, after which the handler is still
  \<open>notifyNestedSubs\<close>, \<open>isSubscribed()\<close> is true, \<open>getState()\<close> is what it was, and the events
  that the attachment has added to the trace hold no notification of node \<open>i\<close>. The effect
  then ends there when \<open>previousState\<close> is the state read after subscribing, and otherwise
  is one call of \<open>notifyNestedSubs\<close> in that state; the first event such a call adds to the
  trace is the notification of node \<open>i\<close>.
\<close>

theorem provider_attach_effect:
  assumes wf: "wf_parents par" and reach: "reachable par s" and fuel: "2 * i + 2 \<le> n"
  shows "\<exists>s1 s2 es.
       call n (SetOnStateChange i (Some (NotifyNestedSubs i))) s = Some (Ok () s1)
     \<and> onStateChange (subs s1 i) = Some (NotifyNestedSubs i) \<and> calls s1 = calls s
     \<and> call n (TrySubscribeSelf i) s1 = Some (Ok () s2)
     \<and> onStateChange (subs s2 i) = Some (NotifyNestedSubs i) \<and> isSubscribed i s2
     \<and> getState s2 = getState s
     \<and> calls s2 = calls s @ es \<and> Notified i \<notin> set es
     \<and> provider_effect n previousState i s
         = (if previousState \<noteq> getState s2 then call n (NotifyNestedSubs i) s2
            else Some (Ok () s2))
     \<and> (\<forall>r. call n (NotifyNestedSubs i) s2 = Some r \<longrightarrow>
            (\<exists>es'. calls (st r) = calls s2 @ Notified i # es'))"
proof -
  from fuel obtain n' where n': "n = Suc n'" by (cases n) auto
  let ?s1 = "upd_sub i (\<lambda>x. x\<lparr>onStateChange := Some (NotifyNestedSubs i)\<rparr>) s"
  have run1: "call n (SetOnStateChange i (Some (NotifyNestedSubs i))) s = Some (Ok () ?s1)"
    by (simp add: n')
  have r1: "reachable par ?s1" using reachable.returned[OF reach run1] by simp
  have inv1: "sub_inv ?s1" by (rule reachable_sub_inv[OF wf r1])
  have o1: "onStateChange (subs ?s1 i) = Some (NotifyNestedSubs i)" "calls ?s1 = calls s"
    "store_state ?s1 = store_state s"
    by (simp_all add: upd_sub_def)
  from self_subscribe[OF inv1 fuel] obtain s2 es where
    t: "call n (TrySubscribeSelf i) ?s1 = Some (Ok () s2)" "selfSubscribed (subs s2 i)"
       "onStateChange (subs s2 i) = onStateChange (subs ?s1 i)"
       "store_state s2 = store_state ?s1" "calls s2 = calls ?s1 @ es" "up_events i es"
    by blast
  have ne: "Notified i \<notin> set es" using t(6) by (auto simp: up_events_def)
  have pe: "provider_effect n previousState i s
         = (if previousState \<noteq> getState s2 then call n (NotifyNestedSubs i) s2
            else Some (Ok () s2))"
    unfolding provider_effect_def run1 by (simp add: t(1))
  have nt: "\<exists>es'. calls (st r) = calls s2 @ Notified i # es'"
    if run: "call n (NotifyNestedSubs i) s2 = Some r" for r
  proof (cases "listeners (subs s2 i)")
    case None
    with run have "r = Ok () (emit (Notified i) s2)" by (simp add: n' Let_def emit_def)
    then show ?thesis by (simp add: emit_def)
  next
    case (Some c)
    with run have "notify_loop n' (firstL (cols s2 c)) (emit (Notified i) s2) = Some r"
      by (simp add: n' Let_def emit_def batch_def)
    from calls_grow(2)[OF this] show ?thesis by (simp add: grows_def emit_def)
  qed
  from run1 o1 t ne pe nt show ?thesis
    by (auto simp: isSubscribed_def getState_def)
qed


theorem provider_attach_effect_witness:
  "wf_parents (\<lambda>_. None)
   \<and> reachable (\<lambda>_. None) ((init (\<lambda>_. None))\<lparr>store_state := 1\<rparr>)
   \<and> 2 * 0 + 2 \<le> (3::nat)
   \<and> (\<exists>s2 es. call 3 (TrySubscribeSelf 0)
                  (upd_sub 0 (\<lambda>x. x\<lparr>onStateChange := Some (NotifyNestedSubs 0)\<rparr>)
                     ((init (\<lambda>_. None))\<lparr>store_state := 1\<rparr>))
                = Some (Ok () s2)
          \<and> isSubscribed 0 s2 \<and> onStateChange (subs s2 0) = Some (NotifyNestedSubs 0)
          \<and> calls s2 = es \<and> Notified 0 \<notin> set es
          \<and> provider_effect 3 1 0 ((init (\<lambda>_. None))\<lparr>store_state := 1\<rparr>) = Some (Ok () s2)
          \<and> provider_effect 3 0 0 ((init (\<lambda>_. None))\<lparr>store_state := 1\<rparr>)
              = call 3 (NotifyNestedSubs 0) s2)"
proof -
  define S where "S = (init (\<lambda>_. None))\<lparr>store_state := 1\<rparr>"
  have wf: "wf_parents (\<lambda>_. None)" by (simp add: wf_parents_def)
  have reach: "reachable (\<lambda>_. None) S" unfolding S_def
    by (rule reachable.assigned[OF reachable.initial])
  have fuel: "2 * 0 + 2 \<le> (3::nat)" by simp
  have g: "getState S = 1" "calls S = []" by (simp_all add: S_def getState_def init_def)
  have s1: "call 3 (SetOnStateChange 0 (Some (NotifyNestedSubs 0))) S
        = Some (Ok () (upd_sub 0 (\<lambda>x. x\<lparr>onStateChange := Some (NotifyNestedSubs 0)\<rparr>) S))"
    by (simp add: eval_nat_numeral)
  from provider_attach_effect[OF wf reach fuel, of 1] obtain s1' s2 es where
    a: "call 3 (SetOnStateChange 0 (Some (NotifyNestedSubs 0))) S = Some (Ok () s1')"
       "call 3 (TrySubscribeSelf 0) s1' = Some (Ok () s2)"
       "onStateChange (subs s2 0) = Some (NotifyNestedSubs 0)" "isSubscribed 0 s2"
       "getState s2 = getState S" "calls s2 = calls S @ es" "Notified 0 \<notin> set es"
       "provider_effect 3 1 0 S
         = (if 1 \<noteq> getState s2 then call 3 (NotifyNestedSubs 0) s2 else Some (Ok () s2))"
    by blast
  from provider_attach_effect[OF wf reach fuel, of 0] a(1,2) have
    b: "provider_effect 3 0 0 S
         = (if 0 \<noteq> getState s2 then call 3 (NotifyNestedSubs 0) s2 else Some (Ok () s2))"
    by auto
  from a(1) s1 have e: "s1' = upd_sub 0 (\<lambda>x. x\<lparr>onStateChange := Some (NotifyNestedSubs 0)\<rparr>) S"
    by simp
  from a b g have "call 3 (TrySubscribeSelf 0)
                  (upd_sub 0 (\<lambda>x. x\<lparr>onStateChange := Some (NotifyNestedSubs 0)\<rparr>) S)
                = Some (Ok () s2)
          \<and> isSubscribed 0 s2 \<and> onStateChange (subs s2 0) = Some (NotifyNestedSubs 0)
          \<and> calls s2 = es \<and> Notified 0 \<notin> set es
          \<and> provider_effect 3 1 0 S = Some (Ok () s2)
          \<and> provider_effect 3 0 0 S = call 3 (NotifyNestedSubs 0) s2"
    unfolding e by simp
  with wf reach fuel show ?thesis unfolding S_def by blast
qed

section \<open>C5: a child that has lost its last listener\<close>



end
